theory Spec2Isabelle
  imports Main "HOL-Library.Word"
begin

section \<open>The heap of the garbage collector (src/GC/lib/heap.cpp)\<close>

text \<open>
  The collector is modelled on an LP64 machine: addresses, \<open>uintptr_t\<close> and \<open>size_t\<close>
  are 64-bit words, whose arithmetic wraps around. The heap is a process-wide singleton, so
  every function takes the whole state and returns the new one. \<open>Chunk\<close> objects live on
  the C++ free store and the vectors hold pointers to them: a pointer is a key of the store
  \<open>chunks\<close>, \<open>new\<close> takes the next unused key and \<open>delete\<close> removes the key.
  A failed \<open>assert\<close> and undefined behaviour (a read through a deleted pointer, an
  out-of-range vector access) are error results.
\<close>

type_synonym addr = "64 word"
type_synonym size_t = "64 word"
type_synonym chunk_ptr = nat

definition nullptr :: addr where
  "nullptr = 0"

definition HEAP_SIZE :: size_t where
  "HEAP_SIZE = 65536"

text \<open>
  The struct \<open>Chunk\<close>. Its constructor \<open>Chunk(size, start)\<close> leaves the mark bit clear.
  The member \<open>m_start\<close> has type \<open>uintptr_t *\<close> (\<open>alloc\<close> constructs it from a
  \<open>(uintptr_t *)\<close> cast), so C++ pointer addition on it advances by
  \<open>sizeof(uintptr_t) = 8\<close> bytes for each unit: \<open>ptr_add\<close>.
\<close>

record Chunk =
  m_marked :: bool
  m_start :: addr
  m_size :: size_t

definition new_Chunk :: "size_t \<Rightarrow> addr \<Rightarrow> Chunk" where
  "new_Chunk sz start = \<lparr>m_marked = False, m_start = start, m_size = sz\<rparr>"

definition ptr_add :: "addr \<Rightarrow> size_t \<Rightarrow> addr" where
  "ptr_add p n = p + 8 * n"

datatype GCEvent =
    HeapInit
  | AllocStart size_t
  | NewChunk Chunk
  | ReusedChunk Chunk
  | CollectStart
  | MarkStart
  | ChunkMarked Chunk
  | ChunkSwept Chunk
  | ChunkFreed Chunk

datatype out_item = OutStr string | OutPtr addr

datatype error = AssertionFailed string | UndefinedBehaviour | OutOfFuel

text \<open>
  The members of the singleton \<open>Heap\<close> (\<open>heap_m_size\<close> is the member \<open>m_size\<close> of the
  heap, renamed apart from the chunk's \<open>m_size\<close>), followed by the part of the process the
  heap code touches: the free store of chunks, the memory as the function from an address to
  the machine word read there, the event list of the profiler and the stream \<open>cout\<close>.
\<close>

record state =
  m_heap :: addr
  heap_m_size :: size_t
  m_allocated_chunks :: "chunk_ptr list"
  m_freed_chunks :: "chunk_ptr list"
  m_stack_top :: addr
  m_profiler_enable :: bool
  chunks :: "chunk_ptr \<Rightarrow> Chunk option"
  next_chunk :: chunk_ptr
  mem :: "addr \<Rightarrow> 64 word"
  m_events :: "GCEvent list"
  cout :: "out_item list"

text \<open>
  Modelled from the spec: \<open>Profiler::record\<close> is not part of these sources; the profiler
  "appends to an in-memory event log" a snapshot of the chunk. Every call in the heap code
  is gated by \<open>profiler_enabled\<close>, which is part of this definition.
\<close>

definition record_event :: "GCEvent \<Rightarrow> state \<Rightarrow> state" where
  "record_event ev st =
     (if m_profiler_enable st then st\<lparr>m_events := m_events st @ [ev]\<rparr> else st)"

definition new_chunk :: "Chunk \<Rightarrow> state \<Rightarrow> chunk_ptr \<times> state" where
  "new_chunk c st =
     (next_chunk st,
      st\<lparr>chunks := (chunks st)(next_chunk st \<mapsto> c), next_chunk := Suc (next_chunk st)\<rparr>)"

definition delete_chunk :: "chunk_ptr \<Rightarrow> state \<Rightarrow> state" where
  "delete_chunk p st = st\<lparr>chunks := (chunks st)(p := None)\<rparr>"

definition set_marked :: "chunk_ptr \<Rightarrow> Chunk \<Rightarrow> bool \<Rightarrow> state \<Rightarrow> state" where
  "set_marked p c b st = st\<lparr>chunks := (chunks st)(p \<mapsto> c\<lparr>m_marked := b\<rparr>)\<rparr>"

text \<open>\<open>vector::erase\<close> at an iterator, the iterator being its index.\<close>

definition erase :: "nat \<Rightarrow> 'a list \<Rightarrow> 'a list" where
  "erase i xs = take i xs @ drop (Suc i) xs"

subsection \<open>try_recycle_chunks\<close>

function try_recycle_loop :: "size_t \<Rightarrow> nat \<Rightarrow> state \<Rightarrow> error + (chunk_ptr option \<times> state)" where
  "try_recycle_loop sz i st =
     (if i < length (m_freed_chunks st) then
        (case chunks st (m_freed_chunks st ! i) of
           None \<Rightarrow> Inl UndefinedBehaviour
         | Some chunk \<Rightarrow>
             if m_size chunk > sz then
               (case new_chunk (new_Chunk (m_size chunk - sz)
                                  (ptr_add (m_start chunk) (m_size chunk))) st of
                  (chunk_complement, st1) \<Rightarrow>
                    Inr (Some (m_freed_chunks st ! i),
                         st1\<lparr>m_freed_chunks := erase i (m_freed_chunks st1) @ [chunk_complement],
                             m_allocated_chunks :=
                               m_allocated_chunks st1 @ [m_freed_chunks st ! i]\<rparr>))
             else if m_size chunk = sz then
               Inr (Some (m_freed_chunks st ! i),
                    st\<lparr>m_freed_chunks := erase i (m_freed_chunks st),
                       m_allocated_chunks := m_allocated_chunks st @ [m_freed_chunks st ! i]\<rparr>)
             else try_recycle_loop sz (i + 1) st)
      else Inr (None, st))"
  by pat_completeness auto
termination
  by (relation "measure (\<lambda>(sz, i, st). length (m_freed_chunks st) - i)") auto

definition try_recycle_chunks :: "size_t \<Rightarrow> state \<Rightarrow> error + (chunk_ptr option \<times> state)" where
  "try_recycle_chunks sz st = try_recycle_loop sz 0 st"

subsection \<open>sweep\<close>

function sweep_loop :: "nat \<Rightarrow> state \<Rightarrow> error + state" where
  "sweep_loop iter st =
     (if iter < length (m_allocated_chunks st) then
        (case chunks st (m_allocated_chunks st ! iter) of
           None \<Rightarrow> Inl UndefinedBehaviour
         | Some chunk \<Rightarrow>
             if m_marked chunk then
               sweep_loop (iter + 1) (set_marked (m_allocated_chunks st ! iter) chunk False st)
             else
               sweep_loop iter
                 ((record_event (ChunkSwept chunk) st)
                    \<lparr>m_freed_chunks := m_freed_chunks st @ [m_allocated_chunks st ! iter],
                     m_allocated_chunks := erase iter (m_allocated_chunks st)\<rparr>))
      else Inr st)"
  by pat_completeness auto
termination
  by (relation "measure (\<lambda>(iter, st). 2 * length (m_allocated_chunks st) - iter)")
     (auto simp: erase_def set_marked_def record_event_def)

definition sweep :: "state \<Rightarrow> error + state" where
  "sweep st = sweep_loop 0 st"

subsection \<open>free and free_overlap\<close>

function free_drain :: "state \<Rightarrow> error + state" where
  "free_drain st =
     (if length (m_freed_chunks st) \<noteq> 0 then
        (case chunks st (last (m_freed_chunks st)) of
           None \<Rightarrow> Inl UndefinedBehaviour
         | Some chunk \<Rightarrow>
             free_drain
               (delete_chunk (last (m_freed_chunks st))
                  (record_event (ChunkFreed chunk)
                     (st\<lparr>m_freed_chunks := butlast (m_freed_chunks st)\<rparr>))))
      else Inr st)"
  by pat_completeness auto
termination
  by (relation "measure (\<lambda>st. length (m_freed_chunks st))")
     (auto simp: delete_chunk_def record_event_def)

function free_overlap_loop :: "nat \<Rightarrow> chunk_ptr list \<Rightarrow> state \<Rightarrow> error + (chunk_ptr list \<times> state)" where
  "free_overlap_loop i filtered st =
     (if i < length (m_freed_chunks st) then
        (if filtered = [] then Inl UndefinedBehaviour
         else
           case chunks st (last filtered) of
             None \<Rightarrow> Inl UndefinedBehaviour
           | Some prev \<Rightarrow>
               (case chunks st (m_freed_chunks st ! i) of
                  None \<Rightarrow> Inl UndefinedBehaviour
                | Some next \<Rightarrow>
                    if m_start next \<ge> m_start prev + m_size prev then
                      free_overlap_loop (i + 1) (filtered @ [m_freed_chunks st ! i])
                        (set_marked (m_freed_chunks st ! i) next True st)
                    else free_overlap_loop (i + 1) filtered st))
      else Inr (filtered, st))"
  by pat_completeness auto
termination
  by (relation "measure (\<lambda>(i, filtered, st). length (m_freed_chunks st) - i)")
     (auto simp: set_marked_def)

fun free_overlap_delete :: "chunk_ptr list \<Rightarrow> state \<Rightarrow> error + state" where
  "free_overlap_delete [] st = Inr st"
| "free_overlap_delete (p # ps) st =
     (case chunks st p of
        None \<Rightarrow> Inl UndefinedBehaviour
      | Some chunk \<Rightarrow>
          if \<not> m_marked chunk then
            free_overlap_delete ps (delete_chunk p (record_event (ChunkFreed chunk) st))
          else free_overlap_delete ps (set_marked p chunk False st))"

text \<open>
  \<open>Heap::get_at(list, 0)\<close> on an empty vector dereferences \<open>begin() = end()\<close>, which is
  undefined. After the loop \<open>swap\<close> exchanges the two vectors, so the last loop runs over
  the old \<open>m_freed_chunks\<close>.
\<close>

definition free_overlap :: "state \<Rightarrow> error + state" where
  "free_overlap st =
     (if m_freed_chunks st = [] then Inl UndefinedBehaviour
      else
        case chunks st (m_freed_chunks st ! 0) of
          None \<Rightarrow> Inl UndefinedBehaviour
        | Some prev \<Rightarrow>
            (case free_overlap_loop 1 [m_freed_chunks st ! 0]
                    ((set_marked (m_freed_chunks st ! 0) prev True st)
                       \<lparr>cout := cout st @ [OutPtr (m_start prev)]\<rparr>) of
               Inl e \<Rightarrow> Inl e
             | Inr (filtered, st1) \<Rightarrow>
                 free_overlap_delete (m_freed_chunks st1) (st1\<lparr>m_freed_chunks := filtered\<rparr>)))"

definition free :: "nat \<Rightarrow> state \<Rightarrow> error + state" where
  "free FREE_THRESH st =
     (if length (m_freed_chunks st) > FREE_THRESH then free_drain st
      else if length (m_freed_chunks st) \<noteq> 0 then free_overlap st
      else Inr st)"

subsection \<open>mark\<close>

text \<open>
  The work list is a \<open>std::vector<Chunk *>\<close> that \<open>mark\<close> receives by reference and
  erases from while it iterates. The loop keeps the iterator \<open>stop = worklist.end()\<close> taken
  before the first \<open>erase\<close>, so after an erase it reads vector slots past the new end.
  The vector is therefore modelled with its buffer: \<open>v_buf\<close> holds all the slots of the
  buffer and \<open>v_size\<close> says how many of them are elements. \<open>erase\<close> at a position moves
  the later elements down by one slot and leaves the last slot as it was; an iterator is its
  slot index. Erasing at a slot that is not an element is undefined behaviour.
\<close>

record vector =
  v_buf :: "chunk_ptr list"
  v_size :: nat

definition vector_of :: "chunk_ptr list \<Rightarrow> vector" where
  "vector_of xs = \<lparr>v_buf = xs, v_size = length xs\<rparr>"

definition v_erase :: "nat \<Rightarrow> vector \<Rightarrow> vector" where
  "v_erase it v =
     \<lparr>v_buf = take it (v_buf v) @ drop (Suc it) (take (v_size v) (v_buf v))
                @ drop (v_size v - 1) (v_buf v),
      v_size = v_size v - 1\<rparr>"

text \<open>
  The recursion of \<open>mark\<close> is bounded by its first argument: every recursive call follows
  an erase, so the size of the work list is enough (\<open>collect\<close> passes it). \<open>mark_for\<close>
  is the loop over the words from \<open>start\<close> to \<open>end\<close>, \<open>mark_while\<close> the loop over the
  work list for the word at \<open>start\<close>. Incrementing \<open>start\<close> past the end of the address
  space (\<open>start + 8\<close> wraps around exactly when it is below \<open>start\<close>) is undefined
  behaviour.
\<close>

function mark :: "nat \<Rightarrow> addr \<Rightarrow> addr \<Rightarrow> vector \<times> state \<Rightarrow> error + (vector \<times> state)"
  and mark_for :: "nat \<Rightarrow> addr \<Rightarrow> addr \<Rightarrow> vector \<times> state \<Rightarrow> error + (vector \<times> state)"
  and mark_while :: "nat \<Rightarrow> addr \<Rightarrow> nat \<Rightarrow> nat \<Rightarrow> vector \<times> state \<Rightarrow> error + (vector \<times> state)"
where
  "mark d start end' (worklist, st) =
     mark_for d start end' (worklist, record_event MarkStart st)"
| "mark_for d start end' (worklist, st) =
     (if start \<le> end' then
        (case mark_while d start 0 (v_size worklist) (worklist, st) of
           Inl e \<Rightarrow> Inl e
         | Inr ws \<Rightarrow>
             if start \<le> start + 8 then mark_for d (start + 8) end' ws
             else Inl UndefinedBehaviour)
      else Inr (worklist, st))"
| "mark_while d start it stop (worklist, st) =
     (if it \<noteq> stop then
        (if it < length (v_buf worklist) then
           (case chunks st (v_buf worklist ! it) of
              None \<Rightarrow> Inl UndefinedBehaviour
            | Some chunk \<Rightarrow>
                if m_start chunk \<le> mem st start \<and> mem st start < m_start chunk + m_size chunk
                then
                  if \<not> m_marked chunk then
                    (if it < v_size worklist then
                       (case d of
                          0 \<Rightarrow> Inl OutOfFuel
                        | Suc d' \<Rightarrow>
                            (case mark d' (m_start chunk) (m_start chunk + m_size chunk)
                                    (v_erase it worklist,
                                     set_marked (v_buf worklist ! it) chunk True
                                       (record_event (ChunkMarked chunk) st)) of
                               Inl e \<Rightarrow> Inl e
                             | Inr ws \<Rightarrow> mark_while d' start it stop ws))
                     else Inl UndefinedBehaviour)
                  else mark_while d start (it + 1) stop (worklist, st)
                else mark_while d start (it + 1) stop (worklist, st))
         else Inl UndefinedBehaviour)
      else Inr (worklist, st))"
  by pat_completeness auto
termination
  by (relation "measures
        [\<lambda>x. case x of Inl (d, _) \<Rightarrow> d | Inr (Inl (d, _)) \<Rightarrow> d | Inr (Inr (d, _)) \<Rightarrow> d,
         \<lambda>x. case x of Inl _ \<Rightarrow> 2 | Inr (Inl _) \<Rightarrow> 1 | Inr (Inr _) \<Rightarrow> 0,
         \<lambda>x. case x of Inl _ \<Rightarrow> 0
              | Inr (Inl (d, start, end', ws)) \<Rightarrow> unat end' + 8 - unat start
              | Inr (Inr (d, start, it, stop, worklist, st)) \<Rightarrow> length (v_buf worklist) - it]")
     (auto simp: word_le_nat_alt no_plus_overflow_unat_size unat_plus_if_size word_size)

subsection \<open>collect and alloc\<close>

text \<open>
  \<open>stack_bottom\<close> is \<open>__builtin_frame_address(0)\<close>, the frame of \<open>collect\<close> itself, and
  \<open>FREE_THRESH\<close> a compile-time constant whose definition is not part of these sources:
  both are parameters. The work list is a copy of the vector \<open>m_allocated_chunks\<close>; the
  copy shares the chunks, which are reached through pointers.
\<close>

definition collect :: "nat \<Rightarrow> addr \<Rightarrow> state \<Rightarrow> error + state" where
  "collect FREE_THRESH stack_bottom st0 =
     (if m_stack_top (record_event CollectStart st0) = nullptr
      then Inl (AssertionFailed ''Heap is not initialized, read the docs!'')
      else
        (case mark (length (m_allocated_chunks st0)) stack_bottom (m_stack_top st0)
                (vector_of (m_allocated_chunks st0), record_event CollectStart st0) of
           Inl e \<Rightarrow> Inl e
         | Inr (work_list, st1) \<Rightarrow>
             (case sweep st1 of
                Inl e \<Rightarrow> Inl e
              | Inr st2 \<Rightarrow> free FREE_THRESH st2)))"

definition alloc_capacity :: "nat \<Rightarrow> addr \<Rightarrow> size_t \<Rightarrow> state \<Rightarrow> error + state" where
  "alloc_capacity FREE_THRESH stack_bottom sz st =
     (if heap_m_size st + sz > HEAP_SIZE then
        (case collect FREE_THRESH stack_bottom st of
           Inl e \<Rightarrow> Inl e
         | Inr st1 \<Rightarrow>
             if heap_m_size st1 + sz \<le> HEAP_SIZE then Inr st1
             else Inl (AssertionFailed ''Heap: Out Of Memory''))
      else Inr st)"

definition alloc_chunk :: "size_t \<Rightarrow> state \<Rightarrow> error + (addr \<times> state)" where
  "alloc_chunk sz st =
     (case try_recycle_chunks sz st of
        Inl e \<Rightarrow> Inl e
      | Inr (Some reused_chunk, st1) \<Rightarrow>
          (case chunks st1 reused_chunk of
             None \<Rightarrow> Inl UndefinedBehaviour
           | Some chunk \<Rightarrow> Inr (m_start chunk, record_event (ReusedChunk chunk) st1))
      | Inr (None, st1) \<Rightarrow>
          (case new_chunk (new_Chunk sz (m_heap st1 + heap_m_size st1)) st1 of
             (new_chunk_ptr, st2) \<Rightarrow>
               Inr (m_heap st1 + heap_m_size st1,
                    record_event (NewChunk (new_Chunk sz (m_heap st1 + heap_m_size st1)))
                      (st2\<lparr>heap_m_size := heap_m_size st2 + sz,
                           m_allocated_chunks := m_allocated_chunks st2 @ [new_chunk_ptr]\<rparr>))))"

text \<open>
  \<open>alloc\<close>: the profiler record, the zero-size return, then the capacity check with its
  collection and assertion (\<open>alloc_capacity\<close>), then the recycled or the new chunk
  (\<open>alloc_chunk\<close>).
\<close>

definition alloc :: "nat \<Rightarrow> addr \<Rightarrow> size_t \<Rightarrow> state \<Rightarrow> error + (addr \<times> state)" where
  "alloc FREE_THRESH stack_bottom sz st =
     (if sz = 0 then
        Inr (nullptr,
             (record_event (AllocStart sz) st)
               \<lparr>cout := cout st @ [OutStr ''Heap: Cannot alloc 0B. No bytes allocated.'']\<rparr>)
      else
        (case alloc_capacity FREE_THRESH stack_bottom sz (record_event (AllocStart sz) st) of
           Inl e \<Rightarrow> Inl e
         | Inr st1 \<Rightarrow> alloc_chunk sz st1))"

subsection \<open>Notions of the statements\<close>

text \<open>Whether the chunk behind a pointer exists and has its mark bit set.\<close>

definition is_marked :: "state \<Rightarrow> chunk_ptr \<Rightarrow> bool" where
  "is_marked st p = (case chunks st p of None \<Rightarrow> False | Some c \<Rightarrow> m_marked c)"

text \<open>The start and the size of the chunk behind a pointer (0 for a deleted chunk).\<close>

definition start_of :: "state \<Rightarrow> chunk_ptr \<Rightarrow> addr" where
  "start_of st p = (case chunks st p of None \<Rightarrow> 0 | Some c \<Rightarrow> m_start c)"

definition size_of :: "state \<Rightarrow> chunk_ptr \<Rightarrow> size_t" where
  "size_of st p = (case chunks st p of None \<Rightarrow> 0 | Some c \<Rightarrow> m_size c)"

text \<open>
  The survivors of \<open>free_overlap\<close> in the words of the specification, to be compared with
  the loop of the source: "for each subsequent chunk \<open>next\<close>, compare to
  \<open>filtered.back() = prev\<close>: if \<open>next.start \<ge> prev.start + prev.size\<close>, mark \<open>next\<close>
  and append; else drop".
\<close>

fun spec_filtered :: "(chunk_ptr \<Rightarrow> addr) \<Rightarrow> (chunk_ptr \<Rightarrow> size_t) \<Rightarrow> chunk_ptr \<Rightarrow> chunk_ptr list \<Rightarrow> chunk_ptr list" where
  "spec_filtered start sz prev [] = []"
| "spec_filtered start sz prev (next # rest) =
     (if start next \<ge> start prev + sz prev then next # spec_filtered start sz next rest
      else spec_filtered start sz prev rest)"

text \<open>The addresses of the bytes of a chunk.\<close>

definition chunk_range :: "Chunk \<Rightarrow> addr set" where
  "chunk_range c = {a. m_start c \<le> a \<and> unat a < unat (m_start c) + unat (m_size c)}"

text \<open>
  The test of \<open>mark\<close> for a word \<open>w\<close> and a chunk: \<open>c_start <= w && w < c_end\<close>, with
  \<open>c_end = c_start + c_size\<close> computed in \<open>uintptr_t\<close>.
\<close>

definition points_into :: "Chunk \<Rightarrow> 64 word \<Rightarrow> bool" where
  "points_into c w = (m_start c \<le> w \<and> w < m_start c + m_size c)"

text \<open>The elements of a vector: the slots of its buffer below its size.\<close>

definition v_elems :: "vector \<Rightarrow> chunk_ptr set" where
  "v_elems v = set (take (v_size v) (v_buf v))"

text \<open>
  What \<open>mark\<close> does to its work list and to the state, from a call to its return: every
  chunk keeps its place in the store, its start and its size, and a mark once set; a pointer
  leaves the work list only for a marked chunk; no slot of the buffer gets a new pointer; the
  work list does not grow and its buffer keeps its length; the memory and the members of the
  heap are untouched.
\<close>

definition chunk_kept :: "state \<Rightarrow> state \<Rightarrow> chunk_ptr \<Rightarrow> bool" where
  "chunk_kept st st' p =
     (case chunks st p of
        None \<Rightarrow> chunks st' p = None
      | Some c \<Rightarrow>
          (case chunks st' p of
             None \<Rightarrow> False
           | Some c' \<Rightarrow> m_start c' = m_start c \<and> m_size c' = m_size c
                         \<and> (m_marked c \<longrightarrow> m_marked c')))"

definition mark_ext :: "vector \<times> state \<Rightarrow> vector \<times> state \<Rightarrow> bool" where
  "mark_ext ws ws' =
     ((\<forall>p. chunk_kept (snd ws) (snd ws') p)
      \<and> (\<forall>p\<in>v_elems (fst ws). p \<in> v_elems (fst ws') \<or> is_marked (snd ws') p)
      \<and> set (v_buf (fst ws')) \<subseteq> set (v_buf (fst ws))
      \<and> v_size (fst ws') \<le> v_size (fst ws)
      \<and> (v_size (fst ws) \<le> length (v_buf (fst ws)) \<longrightarrow>
           length (v_buf (fst ws')) = length (v_buf (fst ws)))
      \<and> mem (snd ws') = mem (snd ws)
      \<and> m_allocated_chunks (snd ws') = m_allocated_chunks (snd ws)
      \<and> m_freed_chunks (snd ws') = m_freed_chunks (snd ws)
      \<and> heap_m_size (snd ws') = heap_m_size (snd ws)
      \<and> m_stack_top (snd ws') = m_stack_top (snd ws)
      \<and> m_profiler_enable (snd ws') = m_profiler_enable (snd ws))"

text \<open>
  Well-formed work lists and heaps, on which \<open>mark\<close> and \<open>collect\<close> return. The scan of a
  chunk's interior ends without wrapping around the address space (\<open>scan_ok\<close>); the size of
  the work list is within its buffer, every pointer of the buffer is to an existing chunk, and
  no word passes the test of \<open>mark\<close> for two chunks behind different pointers (\<open>mark_ok\<close>:
  the chunks do not overlap). A heap is well-formed (\<open>heap_ok\<close>) when \<open>init\<close> has set
  \<open>m_stack_top\<close>, the scan of the stack ends without wrapping around, no chunk is twice in
  the two lists, the freed chunks exist and the allocated chunks are a well-formed work list.
\<close>

definition scan_ok :: "Chunk \<Rightarrow> bool" where
  "scan_ok c = (m_start c + m_size c \<le> m_start c + m_size c + 8)"

definition mark_ok :: "vector \<times> state \<Rightarrow> bool" where
  "mark_ok ws =
     (v_size (fst ws) \<le> length (v_buf (fst ws))
      \<and> (\<forall>q\<in>set (v_buf (fst ws)). \<exists>c. chunks (snd ws) q = Some c \<and> scan_ok c)
      \<and> (\<forall>q1\<in>set (v_buf (fst ws)). \<forall>q2\<in>set (v_buf (fst ws)). \<forall>c1 c2 w.
            q1 \<noteq> q2 \<and> chunks (snd ws) q1 = Some c1 \<and> chunks (snd ws) q2 = Some c2
            \<and> points_into c1 w \<longrightarrow> \<not> points_into c2 w))"

definition heap_ok :: "state \<Rightarrow> bool" where
  "heap_ok st =
     (m_stack_top st \<noteq> nullptr
      \<and> m_stack_top st \<le> m_stack_top st + 8
      \<and> distinct (m_allocated_chunks st @ m_freed_chunks st)
      \<and> (\<forall>p\<in>set (m_freed_chunks st). chunks st p \<noteq> None)
      \<and> mark_ok (vector_of (m_allocated_chunks st), st))"

text \<open>
  A run of \<open>alloc\<close> calls, one after the other on the state the call before has left: the
  addresses returned, in order, and the last state. The run stops at the first call that
  fails.
\<close>

fun allocs :: "nat \<Rightarrow> addr \<Rightarrow> size_t list \<Rightarrow> state \<Rightarrow> error + (addr list \<times> state)" where
  "allocs FREE_THRESH stack_bottom [] st = Inr ([], st)"
| "allocs FREE_THRESH stack_bottom (sz # szs) st =
     (case alloc FREE_THRESH stack_bottom sz st of
        Inl e \<Rightarrow> Inl e
      | Inr (a, st1) \<Rightarrow>
          (case allocs FREE_THRESH stack_bottom szs st1 of
             Inl e \<Rightarrow> Inl e
           | Inr (as, st2) \<Rightarrow> Inr (a # as, st2)))"

subsection \<open>Example states\<close>

text \<open>
  A heap whose region starts at \<open>0x1000\<close> and whose stack range ends at \<open>0x8010\<close>, with
  nothing allocated, and the states reached from it that the examples below run on.
\<close>

definition empty_heap :: state where
  "empty_heap =
     \<lparr>m_heap = 0x1000, heap_m_size = 0, m_allocated_chunks = [], m_freed_chunks = [],
      m_stack_top = 0x8010, m_profiler_enable = True, chunks = Map.empty, next_chunk = 0,
      mem = (\<lambda>a. 0), m_events = [], cout = []\<rparr>"

text \<open>One chunk of 64 bytes has been allocated: \<open>used = 64\<close>.\<close>

definition heap_one_chunk :: state where
  "heap_one_chunk =
     empty_heap
       \<lparr>heap_m_size := 64, m_allocated_chunks := [0],
        chunks := [0 \<mapsto> new_Chunk 64 0x1000], next_chunk := 1\<rparr>"

text \<open>The freed list holds exactly one chunk of 256 bytes at \<open>0x1000\<close>.\<close>

definition heap_one_freed :: state where
  "heap_one_freed =
     empty_heap
       \<lparr>heap_m_size := 256, m_freed_chunks := [0],
        chunks := [0 \<mapsto> new_Chunk 256 0x1000], next_chunk := 1\<rparr>"

text \<open>Two chunks are allocated, the first with its mark bit set, as \<open>mark\<close> leaves it.\<close>

definition heap_two_chunks :: state where
  "heap_two_chunks =
     empty_heap
       \<lparr>heap_m_size := 96, m_allocated_chunks := [0, 1],
        chunks := [0 \<mapsto> (new_Chunk 64 0x1000)\<lparr>m_marked := True\<rparr>, 1 \<mapsto> new_Chunk 32 0x1040],
        next_chunk := 2\<rparr>"

text \<open>Three freed chunks as in the spec's scenario: \<open>[0,100)\<close>, \<open>[50,170)\<close>, \<open>[130,150)\<close>.\<close>

definition heap_three_freed :: state where
  "heap_three_freed =
     empty_heap
       \<lparr>heap_m_size := 256, m_freed_chunks := [0, 1, 2],
        chunks := [0 \<mapsto> new_Chunk 100 0, 1 \<mapsto> new_Chunk 120 50, 2 \<mapsto> new_Chunk 20 130],
        next_chunk := 3\<rparr>"

text \<open>Five freed chunks, one after the other.\<close>

definition heap_five_freed :: state where
  "heap_five_freed =
     empty_heap
       \<lparr>heap_m_size := 80, m_freed_chunks := [0, 1, 2, 3, 4],
        chunks := [0 \<mapsto> new_Chunk 16 0x1000, 1 \<mapsto> new_Chunk 16 0x1010, 2 \<mapsto> new_Chunk 16 0x1020,
                   3 \<mapsto> new_Chunk 16 0x1030, 4 \<mapsto> new_Chunk 16 0x1040],
        next_chunk := 5\<rparr>"

text \<open>
  Two allocated chunks, \<open>[0x1000, 0x1040)\<close> and \<open>[0x1040, 0x1060)\<close>; the last word of the
  stack range \<open>[0x8000, 0x8010]\<close> holds the address \<open>0x1004\<close> inside the first chunk.
\<close>

definition heap_pinned :: state where
  "heap_pinned =
     empty_heap
       \<lparr>heap_m_size := 96, m_allocated_chunks := [0, 1],
        chunks := [0 \<mapsto> new_Chunk 64 0x1000, 1 \<mapsto> new_Chunk 32 0x1040],
        next_chunk := 2,
        mem := (\<lambda>a. if a = 0x8010 then 0x1004 else 0)\<rparr>"

text \<open>
  A heap with nothing allocated and the profiler off, whose memory holds three pointers: the
  stack word at \<open>0x8000\<close> holds \<open>0x1010\<close>, the word at \<open>0x1010\<close> holds \<open>0x1000\<close> and the
  word at \<open>0x1018\<close> holds \<open>0x1008\<close>. Every other word is 0.
\<close>

definition wrap_mem :: "addr \<Rightarrow> 64 word" where
  "wrap_mem a =
     (if a = 0x8000 then 0x1010 else if a = 0x1010 then 0x1000 else if a = 0x1018 then 0x1008
      else 0)"

definition heap_wrap_start :: state where
  "heap_wrap_start = empty_heap\<lparr>m_profiler_enable := False, mem := wrap_mem\<rparr>"

text \<open>
  The heap after six allocations of 8, 8, 16, \<open>2^64 - 16\<close>, 16 and 8 bytes. The fourth one
  has taken the bump counter from 32 back to 16, so that chunk 4 lies where chunk 2 lies and
  chunk 5 where chunk 3 starts.
\<close>

definition heap_wrapped :: state where
  "heap_wrapped =
     heap_wrap_start
       \<lparr>heap_m_size := 40, m_allocated_chunks := [0, 1, 2, 3, 4, 5],
        chunks := [0 \<mapsto> new_Chunk 8 0x1000, 1 \<mapsto> new_Chunk 8 0x1008, 2 \<mapsto> new_Chunk 16 0x1010,
                   3 \<mapsto> new_Chunk (- 16) 0x1020, 4 \<mapsto> new_Chunk 16 0x1010,
                   5 \<mapsto> new_Chunk 8 0x1020],
        next_chunk := 6\<rparr>"

text \<open>The same heap with the chunks 3, 4 and 5 moved to the freed list.\<close>

definition heap_wrapped_swept :: state where
  "heap_wrapped_swept =
     heap_wrapped\<lparr>m_allocated_chunks := [0, 1, 2], m_freed_chunks := [3, 4, 5]\<rparr>"

section \<open>Properties\<close>

subsection \<open>Frame lemmas of the state operations\<close>

lemma record_event_fields [simp]:
  "m_heap (record_event ev st) = m_heap st"
  "heap_m_size (record_event ev st) = heap_m_size st"
  "m_allocated_chunks (record_event ev st) = m_allocated_chunks st"
  "m_freed_chunks (record_event ev st) = m_freed_chunks st"
  "m_stack_top (record_event ev st) = m_stack_top st"
  "m_profiler_enable (record_event ev st) = m_profiler_enable st"
  "chunks (record_event ev st) = chunks st"
  "next_chunk (record_event ev st) = next_chunk st"
  "mem (record_event ev st) = mem st"
  "cout (record_event ev st) = cout st"
  by (simp_all add: record_event_def)

lemma set_marked_fields [simp]:
  "m_heap (set_marked p c b st) = m_heap st"
  "heap_m_size (set_marked p c b st) = heap_m_size st"
  "m_allocated_chunks (set_marked p c b st) = m_allocated_chunks st"
  "m_freed_chunks (set_marked p c b st) = m_freed_chunks st"
  "m_stack_top (set_marked p c b st) = m_stack_top st"
  "m_profiler_enable (set_marked p c b st) = m_profiler_enable st"
  "chunks (set_marked p c b st) = (chunks st)(p \<mapsto> c\<lparr>m_marked := b\<rparr>)"
  "next_chunk (set_marked p c b st) = next_chunk st"
  "mem (set_marked p c b st) = mem st"
  "m_events (set_marked p c b st) = m_events st"
  "cout (set_marked p c b st) = cout st"
  by (simp_all add: set_marked_def)

lemma delete_chunk_fields [simp]:
  "m_heap (delete_chunk p st) = m_heap st"
  "heap_m_size (delete_chunk p st) = heap_m_size st"
  "m_allocated_chunks (delete_chunk p st) = m_allocated_chunks st"
  "m_freed_chunks (delete_chunk p st) = m_freed_chunks st"
  "m_stack_top (delete_chunk p st) = m_stack_top st"
  "m_profiler_enable (delete_chunk p st) = m_profiler_enable st"
  "chunks (delete_chunk p st) = (chunks st)(p := None)"
  "next_chunk (delete_chunk p st) = next_chunk st"
  "mem (delete_chunk p st) = mem st"
  "m_events (delete_chunk p st) = m_events st"
  "cout (delete_chunk p st) = cout st"
  by (simp_all add: delete_chunk_def)

subsection \<open>Zero-size allocation\<close>

text \<open>
  C8. \<open>alloc(0)\<close> returns the null address and writes the diagnostic to \<open>cout\<close>. It
  allocates nothing: \<open>used\<close>, \<open>allocated\<close>, \<open>freed\<close> and the chunks are as before. No
  collection runs: the only event the call records (when the profiler is on) is its
  \<open>AllocStart\<close>.
\<close>

theorem alloc_zero_size:
  "\<exists>st'. alloc FREE_THRESH stack_bottom 0 st = Inr (nullptr, st')
     \<and> cout st' = cout st @ [OutStr ''Heap: Cannot alloc 0B. No bytes allocated.'']
     \<and> heap_m_size st' = heap_m_size st
     \<and> m_allocated_chunks st' = m_allocated_chunks st
     \<and> m_freed_chunks st' = m_freed_chunks st
     \<and> chunks st' = chunks st
     \<and> next_chunk st' = next_chunk st
     \<and> m_events st' = m_events st @ (if m_profiler_enable st then [AllocStart 0] else [])"
  by (simp add: alloc_def record_event_def)

subsection \<open>Recycling finds no chunk\<close>

declare try_recycle_loop.simps [simp del]

lemma try_recycle_loop_None:
  "try_recycle_loop sz i st = Inr (None, st') \<longleftrightarrow>
     st' = st \<and> (\<forall>j. i \<le> j \<and> j < length (m_freed_chunks st) \<longrightarrow>
                   (\<exists>c. chunks st (m_freed_chunks st ! j) = Some c \<and> m_size c < sz))"
proof (induction sz i st rule: try_recycle_loop.induct)
  case (1 sz i st)
  show ?case
  proof (cases "i < length (m_freed_chunks st)")
    case False
    then show ?thesis
      by (subst try_recycle_loop.simps) auto
  next
    case inrange: True
    show ?thesis
    proof (cases "chunks st (m_freed_chunks st ! i)")
      case None
      with inrange show ?thesis
        by (subst try_recycle_loop.simps) auto
    next
      case (Some chunk)
      show ?thesis
      proof (cases "m_size chunk < sz")
        case True
        then have no: "\<not> sz < m_size chunk" "m_size chunk \<noteq> sz"
          by auto
        have split: "(\<forall>j. i \<le> j \<and> j < length (m_freed_chunks st) \<longrightarrow>
                 (\<exists>c. chunks st (m_freed_chunks st ! j) = Some c \<and> m_size c < sz))
           \<longleftrightarrow> (\<forall>j. i + 1 \<le> j \<and> j < length (m_freed_chunks st) \<longrightarrow>
                 (\<exists>c. chunks st (m_freed_chunks st ! j) = Some c \<and> m_size c < sz))"
          (is "?L \<longleftrightarrow> ?R")
        proof
          assume ?L then show ?R by auto
        next
          assume r: ?R
          show ?L
          proof (intro allI impI)
            fix j assume "i \<le> j \<and> j < length (m_freed_chunks st)"
            then consider "j = i" | "i + 1 \<le> j \<and> j < length (m_freed_chunks st)"
              by linarith
            then show "\<exists>c. chunks st (m_freed_chunks st ! j) = Some c \<and> m_size c < sz"
              using r Some True by cases auto
          qed
        qed
        have "try_recycle_loop sz i st = try_recycle_loop sz (i + 1) st"
          using inrange Some no by (subst try_recycle_loop.simps) simp
        then show ?thesis
          using "1.IH" [OF inrange Some no] split by simp
      next
        case False
        then have "try_recycle_loop sz i st \<noteq> Inr (None, st')"
          using inrange Some
          by (subst try_recycle_loop.simps) (auto simp: new_chunk_def split: prod.splits)
        moreover have "\<not> (\<exists>c. chunks st (m_freed_chunks st ! i) = Some c \<and> m_size c < sz)"
          using Some False by simp
        ultimately show ?thesis
          using inrange by auto
      qed
    qed
  qed
qed

lemma try_recycle_chunks_None:
  "try_recycle_chunks sz st = Inr (None, st') \<longleftrightarrow>
     st' = st \<and> (\<forall>p\<in>set (m_freed_chunks st). \<exists>c. chunks st p = Some c \<and> m_size c < sz)"
  unfolding try_recycle_chunks_def try_recycle_loop_None
  by (simp add: all_set_conv_all_nth)

lemma alloc_chunk_fresh:
  assumes "\<forall>p\<in>set (m_freed_chunks st). \<exists>c. chunks st p = Some c \<and> m_size c < sz"
  shows "alloc_chunk sz st =
           Inr (m_heap st + heap_m_size st,
                record_event (NewChunk (new_Chunk sz (m_heap st + heap_m_size st)))
                  (st\<lparr>chunks := (chunks st)(next_chunk st \<mapsto> new_Chunk sz (m_heap st + heap_m_size st)),
                      next_chunk := Suc (next_chunk st),
                      heap_m_size := heap_m_size st + sz,
                      m_allocated_chunks := m_allocated_chunks st @ [next_chunk st]\<rparr>))"
proof -
  have "try_recycle_chunks sz st = Inr (None, st)"
    using assms by (simp add: try_recycle_chunks_None)
  then show ?thesis
    by (simp add: alloc_chunk_def new_chunk_def)
qed

text \<open>
  C10. \<open>try_recycle_chunks(size)\<close> returns null exactly when every chunk of \<open>freed\<close> is
  smaller than the request, and then it leaves the state (so \<open>freed\<close> and \<open>allocated\<close>)
  as it was. When moreover the request is not zero and passes the capacity check, \<open>alloc\<close>
  creates a new chunk of the requested size that starts at \<open>region + used\<close>, appends it to
  \<open>allocated\<close> and returns that address.
\<close>

theorem recycle_none_then_fresh_chunk:
  "((\<exists>st'. try_recycle_chunks sz st = Inr (None, st')) \<longleftrightarrow>
      (\<forall>p\<in>set (m_freed_chunks st). \<exists>c. chunks st p = Some c \<and> m_size c < sz))
   \<and> (\<forall>st'. try_recycle_chunks sz st = Inr (None, st') \<longrightarrow> st' = st)
   \<and> (sz \<noteq> 0 \<and> heap_m_size st + sz \<le> HEAP_SIZE
        \<and> (\<forall>p\<in>set (m_freed_chunks st). \<exists>c. chunks st p = Some c \<and> m_size c < sz)
      \<longrightarrow> (\<exists>st'. alloc FREE_THRESH stack_bottom sz st = Inr (m_heap st + heap_m_size st, st')
             \<and> chunks st' = (chunks st)(next_chunk st \<mapsto> new_Chunk sz (m_heap st + heap_m_size st))
             \<and> m_allocated_chunks st' = m_allocated_chunks st @ [next_chunk st]
             \<and> m_freed_chunks st' = m_freed_chunks st
             \<and> heap_m_size st' = heap_m_size st + sz))"
proof (intro conjI allI impI)
  show "(\<exists>st'. try_recycle_chunks sz st = Inr (None, st')) \<longleftrightarrow>
      (\<forall>p\<in>set (m_freed_chunks st). \<exists>c. chunks st p = Some c \<and> m_size c < sz)"
    by (simp add: try_recycle_chunks_None)
next
  fix st' assume "try_recycle_chunks sz st = Inr (None, st')"
  then show "st' = st" by (simp add: try_recycle_chunks_None)
next
  assume a: "sz \<noteq> 0 \<and> heap_m_size st + sz \<le> HEAP_SIZE
        \<and> (\<forall>p\<in>set (m_freed_chunks st). \<exists>c. chunks st p = Some c \<and> m_size c < sz)"
  let ?st = "record_event (AllocStart sz) st"
  have cap: "alloc_capacity FREE_THRESH stack_bottom sz ?st = Inr ?st"
    using a by (simp add: alloc_capacity_def linorder_not_less [symmetric])
  have "\<forall>p\<in>set (m_freed_chunks ?st). \<exists>c. chunks ?st p = Some c \<and> m_size c < sz"
    using a by simp
  note fresh = alloc_chunk_fresh [OF this]
  show "\<exists>st'. alloc FREE_THRESH stack_bottom sz st = Inr (m_heap st + heap_m_size st, st')
             \<and> chunks st' = (chunks st)(next_chunk st \<mapsto> new_Chunk sz (m_heap st + heap_m_size st))
             \<and> m_allocated_chunks st' = m_allocated_chunks st @ [next_chunk st]
             \<and> m_freed_chunks st' = m_freed_chunks st
             \<and> heap_m_size st' = heap_m_size st + sz"
    using a cap fresh by (simp add: alloc_def)
qed

theorem recycle_none_then_fresh_chunk_witness:
  "try_recycle_chunks 512 heap_one_freed = Inr (None, heap_one_freed)
   \<and> (\<exists>st'. alloc 4 0x8000 512 heap_one_freed = Inr (0x1100, st')
         \<and> chunks st' 1 = Some (new_Chunk 512 0x1100)
         \<and> m_allocated_chunks st' = [1]
         \<and> m_freed_chunks st' = [0]
         \<and> heap_m_size st' = 768)"
proof -
  have ball: "\<forall>p\<in>set (m_freed_chunks heap_one_freed).
                \<exists>c. chunks heap_one_freed p = Some c \<and> m_size c < 512"
    by (simp add: heap_one_freed_def empty_heap_def new_Chunk_def)
  have pre: "(512::size_t) \<noteq> 0 \<and> heap_m_size heap_one_freed + 512 \<le> HEAP_SIZE"
    by (simp add: heap_one_freed_def empty_heap_def HEAP_SIZE_def)
  note inst = recycle_none_then_fresh_chunk [of 512 heap_one_freed 4 "0x8000"]
  from inst ball have "\<exists>st'. try_recycle_chunks 512 heap_one_freed = Inr (None, st')"
    by blast
  with inst have 1: "try_recycle_chunks 512 heap_one_freed = Inr (None, heap_one_freed)"
    by blast
  from inst pre ball obtain st' where
    "alloc 4 0x8000 512 heap_one_freed
       = Inr (m_heap heap_one_freed + heap_m_size heap_one_freed, st')"
    "chunks st' = (chunks heap_one_freed)
       (next_chunk heap_one_freed \<mapsto>
          new_Chunk 512 (m_heap heap_one_freed + heap_m_size heap_one_freed))"
    "m_allocated_chunks st' = m_allocated_chunks heap_one_freed @ [next_chunk heap_one_freed]"
    "m_freed_chunks st' = m_freed_chunks heap_one_freed"
    "heap_m_size st' = heap_m_size heap_one_freed + 512"
    by blast
  then have "alloc 4 0x8000 512 heap_one_freed = Inr (0x1100, st')
         \<and> chunks st' 1 = Some (new_Chunk 512 0x1100)
         \<and> m_allocated_chunks st' = [1]
         \<and> m_freed_chunks st' = [0]
         \<and> heap_m_size st' = 768"
    by (simp add: heap_one_freed_def empty_heap_def)
  with 1 show ?thesis by blast
qed

subsection \<open>Recycling with a split\<close>

text \<open>
  C2. The freed list holds one chunk of 256 bytes at \<open>0x1000\<close> and 64 bytes are requested.
  The chunk that moves to \<open>allocated\<close> is the whole chunk, still 256 bytes long, not its
  prefix of 64 bytes; the complement of 192 bytes is put at \<open>m_start + m_size\<close> in units
  of \<open>uintptr_t\<close>, which is the address \<open>0x1000 + 8 * 256 = 0x1800\<close>. \<open>alloc\<close> returns
  the start of the original chunk.
\<close>

theorem try_recycle_split_keeps_whole_chunk:
  "\<exists>st'. try_recycle_chunks 64 heap_one_freed = Inr (Some 0, st')
     \<and> m_allocated_chunks st' = [0]
     \<and> chunks st' 0 = Some \<lparr>m_marked = False, m_start = 0x1000, m_size = 256\<rparr>
     \<and> m_freed_chunks st' = [1]
     \<and> chunks st' 1 = Some \<lparr>m_marked = False, m_start = 0x1800, m_size = 192\<rparr>"
  by (simp add: try_recycle_chunks_def try_recycle_loop.simps heap_one_freed_def
        empty_heap_def new_chunk_def new_Chunk_def ptr_add_def erase_def)

subsection \<open>The capacity check wraps around\<close>

text \<open>
  C5. With 64 bytes in use, a request of \<open>2^64 - 32\<close> bytes does not fit into the heap of
  65536 bytes, but the sum \<open>m_size + size\<close> of the capacity check wraps around to 32: no
  collection runs (the profiler records only \<open>AllocStart\<close> and \<open>NewChunk\<close>), no assertion
  fails, and \<open>alloc\<close> returns the address of a new chunk.
\<close>

theorem alloc_overflow_skips_collect:
  "unat (heap_m_size heap_one_chunk) + unat (- 32 :: size_t) > unat HEAP_SIZE
   \<and> (\<exists>st'. alloc 4 0x8000 (- 32) heap_one_chunk = Inr (0x1040, st')
         \<and> m_events st' = [AllocStart (- 32), NewChunk (new_Chunk (- 32) 0x1040)]
         \<and> m_allocated_chunks st' = [0, 1])"
  by (simp add: alloc_def alloc_capacity_def alloc_chunk_def try_recycle_chunks_def
        try_recycle_loop.simps heap_one_chunk_def empty_heap_def new_chunk_def
        record_event_def HEAP_SIZE_def)

text \<open>
  C9. In the same call the bump counter \<open>used\<close> goes down, from 64 to 32.
\<close>

theorem alloc_overflow_decreases_used:
  "heap_m_size heap_one_chunk = 64
   \<and> (\<exists>a st'. alloc 4 0x8000 (- 32) heap_one_chunk = Inr (a, st') \<and> heap_m_size st' = 32)"
  by (simp add: alloc_def alloc_capacity_def alloc_chunk_def try_recycle_chunks_def
        try_recycle_loop.simps heap_one_chunk_def empty_heap_def new_chunk_def
        record_event_def HEAP_SIZE_def)

subsection \<open>sweep\<close>

declare sweep_loop.simps [simp del]

lemma erase_take_drop:
  "i < length xs \<Longrightarrow> take i (erase i xs) = take i xs"
  "i < length xs \<Longrightarrow> drop i (erase i xs) = drop (Suc i) xs"
  "i < length xs \<Longrightarrow> length (erase i xs) = length xs - 1"
  by (simp_all add: erase_def min_def)

lemma distinct_erase: "distinct xs \<Longrightarrow> distinct (erase i xs)"
  unfolding erase_def
  by (simp add: set_take_disj_set_drop_if_distinct)

lemma set_erase_subset: "set (erase i xs) \<subseteq> set xs"
  unfolding erase_def
  by (auto dest: in_set_takeD in_set_dropD)

lemma nth_notin_drop_Suc:
  "distinct xs \<Longrightarrow> i < length xs \<Longrightarrow> xs ! i \<notin> set (drop (Suc i) xs)"
  by (metis Cons_nth_drop_Suc distinct.simps(2) distinct_drop)

lemma sweep_loop_spec:
  assumes "distinct (m_allocated_chunks st)"
    and "\<forall>p\<in>set (drop iter (m_allocated_chunks st)). chunks st p \<noteq> None"
  shows "\<exists>st'. sweep_loop iter st = Inr st'
           \<and> m_allocated_chunks st' =
               take iter (m_allocated_chunks st)
               @ filter (is_marked st) (drop iter (m_allocated_chunks st))
           \<and> m_freed_chunks st' =
               m_freed_chunks st
               @ filter (\<lambda>p. \<not> is_marked st p) (drop iter (m_allocated_chunks st))
           \<and> (\<forall>p. chunks st' p =
                 (if p \<in> set (drop iter (m_allocated_chunks st)) \<and> is_marked st p
                  then map_option (\<lambda>c. c\<lparr>m_marked := False\<rparr>) (chunks st p)
                  else chunks st p))
           \<and> heap_m_size st' = heap_m_size st"
  using assms
proof (induction iter st rule: sweep_loop.induct)
  case (1 iter st)
  let ?xs = "m_allocated_chunks st"
  show ?case
  proof (cases "iter < length ?xs")
    case False
    then show ?thesis
      by (subst sweep_loop.simps) simp
  next
    case inrange: True
    let ?p = "?xs ! iter"
    have dropc: "drop iter ?xs = ?p # drop (Suc iter) ?xs"
      using inrange by (simp add: Cons_nth_drop_Suc)
    have fresh: "?p \<notin> set (drop (Suc iter) ?xs)"
      using "1.prems"(1) inrange by (rule nth_notin_drop_Suc)
    from "1.prems"(2) dropc obtain chunk where some: "chunks st ?p = Some chunk"
      by auto
    show ?thesis
    proof (cases "m_marked chunk")
      case marked: True
      let ?st1 = "set_marked ?p chunk False st"
      have same: "\<And>q. q \<in> set (drop (Suc iter) ?xs) \<Longrightarrow> is_marked ?st1 q = is_marked st q"
        using fresh by (auto simp: is_marked_def)
      have pm: "is_marked st ?p"
        using some marked by (simp add: is_marked_def)
      have "\<forall>p\<in>set (drop (iter + 1) (m_allocated_chunks ?st1)). chunks ?st1 p \<noteq> None"
        using "1.prems"(2) dropc by auto
      with "1.IH"(1) [OF inrange some marked] "1.prems"(1)
      obtain st' where r: "sweep_loop (iter + 1) ?st1 = Inr st'"
        and a: "m_allocated_chunks st' = take (iter + 1) ?xs @ filter (is_marked ?st1) (drop (iter + 1) ?xs)"
        and f: "m_freed_chunks st' = m_freed_chunks st @ filter (\<lambda>p. \<not> is_marked ?st1 p) (drop (iter + 1) ?xs)"
        and c: "\<forall>p. chunks st' p =
                 (if p \<in> set (drop (iter + 1) ?xs) \<and> is_marked ?st1 p
                  then map_option (\<lambda>c. c\<lparr>m_marked := False\<rparr>) (chunks ?st1 p)
                  else chunks ?st1 p)"
        and h: "heap_m_size st' = heap_m_size st"
        by auto
      have run: "sweep_loop iter st = Inr st'"
        using inrange some marked r by (subst sweep_loop.simps) simp
      have fa: "filter (is_marked ?st1) (drop (iter + 1) ?xs) = filter (is_marked st) (drop (Suc iter) ?xs)"
        using same by (auto intro: filter_cong)
      have ff: "filter (\<lambda>p. \<not> is_marked ?st1 p) (drop (iter + 1) ?xs)
                = filter (\<lambda>p. \<not> is_marked st p) (drop (Suc iter) ?xs)"
        using same by (auto intro: filter_cong)
      have a': "m_allocated_chunks st' = take iter ?xs @ filter (is_marked st) (drop iter ?xs)"
        using a fa pm inrange by (simp add: dropc take_Suc_conv_app_nth)
      have f': "m_freed_chunks st' = m_freed_chunks st @ filter (\<lambda>p. \<not> is_marked st p) (drop iter ?xs)"
        using f ff pm by (simp add: dropc)
      have c': "\<forall>p. chunks st' p =
                 (if p \<in> set (drop iter ?xs) \<and> is_marked st p
                  then map_option (\<lambda>c. c\<lparr>m_marked := False\<rparr>) (chunks st p)
                  else chunks st p)"
      proof
        fix q
        show "chunks st' q =
                 (if q \<in> set (drop iter ?xs) \<and> is_marked st q
                  then map_option (\<lambda>c. c\<lparr>m_marked := False\<rparr>) (chunks st q)
                  else chunks st q)"
        proof (cases "q = ?p")
          case True
          then show ?thesis
            using c fresh pm some by (simp add: dropc)
        next
          case False
          then show ?thesis
            using c same [of q] by (auto simp: dropc is_marked_def)
        qed
      qed
      show ?thesis using run a' f' c' h by blast
    next
      case unmarked: False
      let ?st1 = "(record_event (ChunkSwept chunk) st)
                    \<lparr>m_freed_chunks := m_freed_chunks st @ [?p],
                     m_allocated_chunks := erase iter ?xs\<rparr>"
      have im: "is_marked ?st1 = is_marked st"
        by (auto simp: is_marked_def fun_eq_iff)
      have pm: "\<not> is_marked st ?p"
        using some unmarked by (simp add: is_marked_def)
      have d: "distinct (m_allocated_chunks ?st1)"
        using "1.prems"(1) by (simp add: distinct_erase)
      have v: "\<forall>p\<in>set (drop iter (m_allocated_chunks ?st1)). chunks ?st1 p \<noteq> None"
        using "1.prems"(2) inrange by (auto simp: erase_take_drop dropc)
      from "1.IH"(2) [OF inrange some unmarked d v]
      obtain st' where r: "sweep_loop iter ?st1 = Inr st'"
        and a: "m_allocated_chunks st' = take iter (erase iter ?xs) @ filter (is_marked ?st1) (drop iter (erase iter ?xs))"
        and f: "m_freed_chunks st' = (m_freed_chunks st @ [?p]) @ filter (\<lambda>p. \<not> is_marked ?st1 p) (drop iter (erase iter ?xs))"
        and c: "\<forall>p. chunks st' p =
                 (if p \<in> set (drop iter (erase iter ?xs)) \<and> is_marked ?st1 p
                  then map_option (\<lambda>c. c\<lparr>m_marked := False\<rparr>) (chunks ?st1 p)
                  else chunks ?st1 p)"
        and h: "heap_m_size st' = heap_m_size st"
        by auto
      have run: "sweep_loop iter st = Inr st'"
        using inrange some unmarked r by (subst sweep_loop.simps) simp
      have a': "m_allocated_chunks st' = take iter ?xs @ filter (is_marked st) (drop iter ?xs)"
        using a pm inrange by (simp add: im erase_take_drop dropc)
      have f': "m_freed_chunks st' = m_freed_chunks st @ filter (\<lambda>p. \<not> is_marked st p) (drop iter ?xs)"
        using f pm inrange by (simp add: im erase_take_drop dropc)
      have c': "\<forall>p. chunks st' p =
                 (if p \<in> set (drop iter ?xs) \<and> is_marked st p
                  then map_option (\<lambda>c. c\<lparr>m_marked := False\<rparr>) (chunks st p)
                  else chunks st p)"
        using c pm inrange by (auto simp: im erase_take_drop dropc)
      show ?thesis using run a' f' c' h by blast
    qed
  qed
qed

lemma sweep_loop_keeps_marked:
  assumes "sweep_loop iter st = Inr st'"
    and "p \<in> set (take iter (m_allocated_chunks st))
         \<or> (p \<in> set (drop iter (m_allocated_chunks st)) \<and> is_marked st p)"
  shows "p \<in> set (m_allocated_chunks st')"
  using assms
proof (induction iter st rule: sweep_loop.induct)
  case (1 iter st)
  let ?xs = "m_allocated_chunks st"
  show ?case
  proof (cases "iter < length ?xs")
    case False
    with "1.prems" show ?thesis
      by (subst (asm) sweep_loop.simps) auto
  next
    case inrange: True
    let ?q = "?xs ! iter"
    have dropc: "drop iter ?xs = ?q # drop (Suc iter) ?xs"
      using inrange by (simp add: Cons_nth_drop_Suc)
    from "1.prems"(1) inrange obtain chunk where some: "chunks st ?q = Some chunk"
      by (subst (asm) sweep_loop.simps) (auto split: option.splits)
    show ?thesis
    proof (cases "m_marked chunk")
      case marked: True
      let ?st1 = "set_marked ?q chunk False st"
      have run: "sweep_loop (iter + 1) ?st1 = Inr st'"
        using "1.prems"(1) inrange some marked by (subst (asm) sweep_loop.simps) simp
      have "p \<in> set (take (iter + 1) (m_allocated_chunks ?st1))
            \<or> (p \<in> set (drop (iter + 1) (m_allocated_chunks ?st1)) \<and> is_marked ?st1 p)"
        using "1.prems"(2) inrange
        by (cases "p = ?q") (auto simp: dropc take_Suc_conv_app_nth is_marked_def)
      with "1.IH"(1) [OF inrange some marked run] show ?thesis .
    next
      case unmarked: False
      let ?st1 = "(record_event (ChunkSwept chunk) st)
                    \<lparr>m_freed_chunks := m_freed_chunks st @ [?q],
                     m_allocated_chunks := erase iter ?xs\<rparr>"
      have run: "sweep_loop iter ?st1 = Inr st'"
        using "1.prems"(1) inrange some unmarked by (subst (asm) sweep_loop.simps) simp
      have im: "is_marked ?st1 = is_marked st"
        by (auto simp: is_marked_def fun_eq_iff)
      have "p \<noteq> ?q \<or> p \<in> set (take iter ?xs)"
        using "1.prems"(2) some unmarked by (auto simp: is_marked_def)
      then have "p \<in> set (take iter (m_allocated_chunks ?st1))
            \<or> (p \<in> set (drop iter (m_allocated_chunks ?st1)) \<and> is_marked ?st1 p)"
        using "1.prems"(2) inrange by (auto simp: im erase_take_drop dropc)
      with "1.IH"(2) [OF inrange some unmarked run] show ?thesis .
    qed
  qed
qed

lemma sweep_keeps_marked:
  "sweep st = Inr st' \<Longrightarrow> p \<in> set (m_allocated_chunks st) \<Longrightarrow> is_marked st p
     \<Longrightarrow> p \<in> set (m_allocated_chunks st')"
  unfolding sweep_def by (rule sweep_loop_keeps_marked) auto

lemma sweep_loop_heap_m_size:
  "sweep_loop iter st = Inr st' \<Longrightarrow> heap_m_size st' = heap_m_size st"
proof (induction iter st rule: sweep_loop.induct)
  case (1 iter st)
  from "1.prems" show ?case
    by (subst (asm) sweep_loop.simps) (auto split: if_splits option.splits dest: "1.IH")
qed

text \<open>
  C4. On a list \<open>allocated\<close> of distinct pointers to existing chunks, \<open>sweep\<close> completes;
  afterwards \<open>allocated\<close> holds exactly the chunks that were marked, in their order, every
  unmarked chunk has been appended to \<open>freed\<close>, in their order, and every chunk that
  remains in \<open>allocated\<close> has \<open>marked = false\<close>.
\<close>

theorem sweep_postcondition:
  assumes "distinct (m_allocated_chunks st)"
    and "\<forall>p\<in>set (m_allocated_chunks st). chunks st p \<noteq> None"
  shows "\<exists>st'. sweep st = Inr st'
           \<and> m_allocated_chunks st' = filter (is_marked st) (m_allocated_chunks st)
           \<and> m_freed_chunks st' =
               m_freed_chunks st @ filter (\<lambda>p. \<not> is_marked st p) (m_allocated_chunks st)
           \<and> (\<forall>p\<in>set (m_allocated_chunks st').
                 \<exists>c. chunks st' p = Some c \<and> \<not> m_marked c)"
proof -
  from sweep_loop_spec [of st 0] assms obtain st' where
    r: "sweep_loop 0 st = Inr st'"
    and a: "m_allocated_chunks st' = filter (is_marked st) (m_allocated_chunks st)"
    and f: "m_freed_chunks st' =
              m_freed_chunks st @ filter (\<lambda>p. \<not> is_marked st p) (m_allocated_chunks st)"
    and c: "\<forall>p. chunks st' p =
              (if p \<in> set (m_allocated_chunks st) \<and> is_marked st p
               then map_option (\<lambda>c. c\<lparr>m_marked := False\<rparr>) (chunks st p)
               else chunks st p)"
    by auto
  have "\<forall>p\<in>set (m_allocated_chunks st'). \<exists>c. chunks st' p = Some c \<and> \<not> m_marked c"
    using a c assms(2) by auto
  with r a f show ?thesis
    by (auto simp: sweep_def)
qed

theorem sweep_postcondition_witness:
  "\<exists>st'. sweep heap_two_chunks = Inr st'
     \<and> m_allocated_chunks st' = [0]
     \<and> m_freed_chunks st' = [1]
     \<and> (\<exists>c. chunks st' 0 = Some c \<and> \<not> m_marked c)"
proof -
  have d: "distinct (m_allocated_chunks heap_two_chunks)"
    by (simp add: heap_two_chunks_def empty_heap_def)
  have v: "\<forall>p\<in>set (m_allocated_chunks heap_two_chunks). chunks heap_two_chunks p \<noteq> None"
    by (simp add: heap_two_chunks_def empty_heap_def)
  from sweep_postcondition [OF d v] obtain st' where
    r: "sweep heap_two_chunks = Inr st'"
    and a: "m_allocated_chunks st' = filter (is_marked heap_two_chunks) (m_allocated_chunks heap_two_chunks)"
    and f: "m_freed_chunks st' = m_freed_chunks heap_two_chunks
              @ filter (\<lambda>p. \<not> is_marked heap_two_chunks p) (m_allocated_chunks heap_two_chunks)"
    and u: "\<forall>p\<in>set (m_allocated_chunks st'). \<exists>c. chunks st' p = Some c \<and> \<not> m_marked c"
    by blast
  have a': "m_allocated_chunks st' = [0]"
    using a by (simp add: heap_two_chunks_def empty_heap_def is_marked_def new_Chunk_def)
  have f': "m_freed_chunks st' = [1]"
    using f by (simp add: heap_two_chunks_def empty_heap_def is_marked_def new_Chunk_def)
  from u a' have "\<exists>c. chunks st' 0 = Some c \<and> \<not> m_marked c"
    by simp
  with r a' f' show ?thesis by blast
qed

subsection \<open>free_overlap\<close>

declare free_overlap_loop.simps [simp del]
declare free_drain.simps [simp del]

lemma set_marked_geometry:
  "chunks st p = Some c \<Longrightarrow> start_of (set_marked p c b st) = start_of st"
  "chunks st p = Some c \<Longrightarrow> size_of (set_marked p c b st) = size_of st"
  by (auto simp: start_of_def size_of_def fun_eq_iff)

lemma spec_filtered_subset: "set (spec_filtered start sz prev ns) \<subseteq> set ns"
  by (induction ns arbitrary: prev) auto

lemma free_overlap_loop_spec:
  assumes "\<forall>p\<in>set (drop i (m_freed_chunks st)). chunks st p \<noteq> None"
    and "filtered \<noteq> []"
    and "chunks st (last filtered) \<noteq> None"
  shows "\<exists>st'. free_overlap_loop i filtered st =
             Inr (filtered @ spec_filtered (start_of st) (size_of st) (last filtered)
                               (drop i (m_freed_chunks st)), st')
           \<and> (\<forall>p. chunks st' p =
                 (if p \<in> set (spec_filtered (start_of st) (size_of st) (last filtered)
                                 (drop i (m_freed_chunks st)))
                  then map_option (\<lambda>c. c\<lparr>m_marked := True\<rparr>) (chunks st p)
                  else chunks st p))
           \<and> m_freed_chunks st' = m_freed_chunks st
           \<and> m_allocated_chunks st' = m_allocated_chunks st
           \<and> heap_m_size st' = heap_m_size st"
  using assms
proof (induction i filtered st rule: free_overlap_loop.induct)
  case (1 i filtered st)
  let ?xs = "m_freed_chunks st"
  show ?case
  proof (cases "i < length ?xs")
    case False
    then show ?thesis
      by (subst free_overlap_loop.simps) simp
  next
    case inrange: True
    let ?n = "?xs ! i"
    have dropc: "drop i ?xs = ?n # drop (Suc i) ?xs"
      using inrange by (simp add: Cons_nth_drop_Suc)
    from "1.prems"(3) obtain prev where sp: "chunks st (last filtered) = Some prev"
      by auto
    from "1.prems"(1) dropc obtain nc where sn: "chunks st ?n = Some nc"
      by auto
    have ne: "filtered \<noteq> []" by fact
    show ?thesis
    proof (cases "m_start prev + m_size prev \<le> m_start nc")
      case keep: True
      let ?st1 = "set_marked ?n nc True st"
      have g: "start_of ?st1 = start_of st" "size_of ?st1 = size_of st"
        using sn by (simp_all add: set_marked_geometry)
      have v: "\<forall>p\<in>set (drop (i + 1) (m_freed_chunks ?st1)). chunks ?st1 p \<noteq> None"
        using "1.prems"(1) dropc by auto
      have l: "chunks ?st1 (last (filtered @ [?n])) \<noteq> None"
        by simp
      let ?K = "spec_filtered (start_of st) (size_of st) ?n (drop (Suc i) ?xs)"
      from "1.IH"(1) [OF inrange ne sp sn keep v _ l]
      obtain st' where r: "free_overlap_loop (i + 1) (filtered @ [?n]) ?st1
                             = Inr ((filtered @ [?n]) @ ?K, st')"
        and c: "\<forall>p. chunks st' p =
                 (if p \<in> set ?K then map_option (\<lambda>c. c\<lparr>m_marked := True\<rparr>) (chunks ?st1 p)
                  else chunks ?st1 p)"
        and rest: "m_freed_chunks st' = ?xs" "m_allocated_chunks st' = m_allocated_chunks st"
          "heap_m_size st' = heap_m_size st"
        by (auto simp: g)
      have K: "spec_filtered (start_of st) (size_of st) (last filtered) (drop i ?xs) = ?n # ?K"
        using keep sp sn by (simp add: dropc start_of_def size_of_def)
      have run: "free_overlap_loop i filtered st = Inr (filtered @ ?n # ?K, st')"
        using inrange ne sp sn keep r by (subst free_overlap_loop.simps) simp
      have c': "\<forall>p. chunks st' p =
                 (if p \<in> set (?n # ?K) then map_option (\<lambda>c. c\<lparr>m_marked := True\<rparr>) (chunks st p)
                  else chunks st p)"
        using c sn by auto
      show ?thesis
        unfolding K using run c' rest by blast
    next
      case drop: False
      have K: "spec_filtered (start_of st) (size_of st) (last filtered) (drop i ?xs)
                = spec_filtered (start_of st) (size_of st) (last filtered) (drop (Suc i) ?xs)"
        using drop sp sn by (simp add: dropc start_of_def size_of_def)
      have v: "\<forall>p\<in>set (drop (i + 1) (m_freed_chunks st)). chunks st p \<noteq> None"
        using "1.prems"(1) dropc by auto
      from "1.IH"(2) [OF inrange ne sp sn drop v ne "1.prems"(3)]
      obtain st' where r: "free_overlap_loop (i + 1) filtered st
                 = Inr (filtered @ spec_filtered (start_of st) (size_of st) (last filtered)
                                    (drop (Suc i) ?xs), st')"
        and c: "\<forall>p. chunks st' p =
                 (if p \<in> set (spec_filtered (start_of st) (size_of st) (last filtered)
                                 (drop (Suc i) ?xs))
                  then map_option (\<lambda>c. c\<lparr>m_marked := True\<rparr>) (chunks st p)
                  else chunks st p)"
        and rest: "m_freed_chunks st' = ?xs" "m_allocated_chunks st' = m_allocated_chunks st"
          "heap_m_size st' = heap_m_size st"
        by auto
      have run: "free_overlap_loop i filtered st
                 = Inr (filtered @ spec_filtered (start_of st) (size_of st) (last filtered)
                                    (drop (Suc i) ?xs), st')"
        using inrange ne sp sn drop r by (subst free_overlap_loop.simps) simp
      show ?thesis
        unfolding K using run c rest by blast
    qed
  qed
qed

lemma free_overlap_delete_spec:
  assumes "distinct ps" and "\<forall>p\<in>set ps. chunks st p \<noteq> None"
  shows "\<exists>st'. free_overlap_delete ps st = Inr st'
           \<and> (\<forall>p. chunks st' p =
                 (if p \<in> set ps
                  then (if is_marked st p
                        then map_option (\<lambda>c. c\<lparr>m_marked := False\<rparr>) (chunks st p) else None)
                  else chunks st p))
           \<and> m_freed_chunks st' = m_freed_chunks st
           \<and> m_allocated_chunks st' = m_allocated_chunks st
           \<and> heap_m_size st' = heap_m_size st"
  using assms
proof (induction ps arbitrary: st)
  case Nil
  then show ?case by simp
next
  case (Cons p ps)
  from Cons.prems obtain chunk where some: "chunks st p = Some chunk"
    by auto
  let ?st1 = "if \<not> m_marked chunk then delete_chunk p (record_event (ChunkFreed chunk) st)
              else set_marked p chunk False st"
  have step: "free_overlap_delete (p # ps) st = free_overlap_delete ps ?st1"
    using some by simp
  have other: "\<And>q. q \<noteq> p \<Longrightarrow> chunks ?st1 q = chunks st q"
    by simp
  have d: "distinct ps" and pn: "p \<notin> set ps"
    using Cons.prems(1) by auto
  have v: "\<forall>q\<in>set ps. chunks ?st1 q \<noteq> None"
    using Cons.prems(2) pn other by (metis list.set_intros(2))
  from Cons.IH [OF d v] obtain st' where r: "free_overlap_delete ps ?st1 = Inr st'"
    and c: "\<forall>q. chunks st' q =
                 (if q \<in> set ps
                  then (if is_marked ?st1 q
                        then map_option (\<lambda>c. c\<lparr>m_marked := False\<rparr>) (chunks ?st1 q) else None)
                  else chunks ?st1 q)"
    and rest: "m_freed_chunks st' = m_freed_chunks ?st1"
      "m_allocated_chunks st' = m_allocated_chunks ?st1"
      "heap_m_size st' = heap_m_size ?st1"
    by blast
  have c': "\<forall>q. chunks st' q =
                 (if q \<in> set (p # ps)
                  then (if is_marked st q
                        then map_option (\<lambda>c. c\<lparr>m_marked := False\<rparr>) (chunks st q) else None)
                  else chunks st q)"
  proof
    fix q
    show "chunks st' q =
                 (if q \<in> set (p # ps)
                  then (if is_marked st q
                        then map_option (\<lambda>c. c\<lparr>m_marked := False\<rparr>) (chunks st q) else None)
                  else chunks st q)"
    proof (cases "q = p")
      case True
      then show ?thesis
        using c pn some by (simp add: is_marked_def)
    next
      case False
      then show ?thesis
        using c other [OF False] by (simp add: is_marked_def)
    qed
  qed
  show ?case
    unfolding step using r c' rest by (auto split: if_splits)
qed

lemma spec_filtered_ordered:
  assumes "start prev \<le> start prev + sz prev"
    and "\<forall>n\<in>set ns. start n \<le> start n + sz n"
  shows "sorted_wrt (\<lambda>a b. unat (start a) + unat (sz a) \<le> unat (start b))
           (prev # spec_filtered start sz prev ns)"
  using assms
proof (induction ns arbitrary: prev)
  case Nil
  then show ?case by simp
next
  case (Cons n ns)
  show ?case
  proof (cases "start prev + sz prev \<le> start n")
    case False
    then show ?thesis
      using Cons.IH [of prev] Cons.prems by simp
  next
    case True
    have pe: "unat (start prev + sz prev) = unat (start prev) + unat (sz prev)"
      using Cons.prems(1) by (simp add: unat_plus_simple)
    have pn: "unat (start prev) + unat (sz prev) \<le> unat (start n)"
      using True pe by (simp add: word_le_nat_alt)
    have nw: "start n \<le> start n + sz n"
      using Cons.prems(2) by simp
    have ih: "sorted_wrt (\<lambda>a b. unat (start a) + unat (sz a) \<le> unat (start b))
                (n # spec_filtered start sz n ns)"
      using Cons.IH [of n] nw Cons.prems(2) by simp
    then have "\<forall>y\<in>set (spec_filtered start sz n ns).
                 unat (start prev) + unat (sz prev) \<le> unat (start y)"
      using pn by fastforce
    then show ?thesis
      using True pn ih by simp
  qed
qed

lemma ordered_disjoint:
  "unat (m_start a) + unat (m_size a) \<le> unat (m_start b)
     \<Longrightarrow> chunk_range a \<inter> chunk_range b = {}"
  by (auto simp: chunk_range_def word_le_nat_alt)

lemma free_overlap_result:
  assumes "m_freed_chunks st \<noteq> []"
    and "distinct (m_freed_chunks st)"
    and "\<forall>p\<in>set (m_freed_chunks st). chunks st p \<noteq> None"
  shows "\<exists>st'. free_overlap st = Inr st'
           \<and> m_freed_chunks st' =
               hd (m_freed_chunks st)
               # spec_filtered (start_of st) (size_of st) (hd (m_freed_chunks st))
                   (tl (m_freed_chunks st))
           \<and> (\<forall>p\<in>set (m_freed_chunks st').
                 \<exists>c. chunks st' p = Some c \<and> \<not> m_marked c
                    \<and> m_start c = start_of st p \<and> m_size c = size_of st p)
           \<and> m_allocated_chunks st' = m_allocated_chunks st
           \<and> heap_m_size st' = heap_m_size st"
proof -
  let ?xs = "m_freed_chunks st"
  let ?f = "hd ?xs"
  from assms(1) have xs: "?xs = ?f # tl ?xs" and f0: "?xs ! 0 = ?f"
    by (cases ?xs; simp)+
  from assms(3) xs obtain pc where spc: "chunks st ?f = Some pc"
    by (metis list.set_intros(1) not_Some_eq)
  let ?st0 = "(set_marked ?f pc True st)\<lparr>cout := cout st @ [OutPtr (m_start pc)]\<rparr>"
  let ?K = "spec_filtered (start_of st) (size_of st) ?f (tl ?xs)"
  have valid: "\<forall>p\<in>set ?xs. chunks st p \<noteq> None"
    by fact
  have g0: "start_of ?st0 = start_of st" "size_of ?st0 = size_of st"
    using spc by (auto simp: start_of_def size_of_def fun_eq_iff)
  have v0: "\<forall>p\<in>set (drop 1 (m_freed_chunks ?st0)). chunks ?st0 p \<noteq> None"
    using valid by (auto dest: in_set_dropD)
  have l0: "chunks ?st0 (last [?f]) \<noteq> None"
    by simp
  from free_overlap_loop_spec [OF v0 _ l0]
  obtain st1 where loop: "free_overlap_loop 1 [?f] ?st0 = Inr ([?f] @ ?K, st1)"
    and c1: "\<forall>p. chunks st1 p =
               (if p \<in> set ?K then map_option (\<lambda>c. c\<lparr>m_marked := True\<rparr>) (chunks ?st0 p)
                else chunks ?st0 p)"
    and fr1: "m_freed_chunks st1 = ?xs"
    and al1: "m_allocated_chunks st1 = m_allocated_chunks st"
    and hs1: "heap_m_size st1 = heap_m_size st"
    by (auto simp: g0 drop_Suc)
  let ?st2 = "st1\<lparr>m_freed_chunks := ?f # ?K\<rparr>"
  have v2: "\<forall>p\<in>set ?xs. chunks ?st2 p \<noteq> None"
    using c1 valid by auto
  from free_overlap_delete_spec [OF assms(2) v2]
  obtain st' where del: "free_overlap_delete ?xs ?st2 = Inr st'"
    and c2: "\<forall>p. chunks st' p =
               (if p \<in> set ?xs
                then (if is_marked ?st2 p
                      then map_option (\<lambda>c. c\<lparr>m_marked := False\<rparr>) (chunks ?st2 p) else None)
                else chunks ?st2 p)"
    and fr2: "m_freed_chunks st' = ?f # ?K"
    and al2: "m_allocated_chunks st' = m_allocated_chunks st"
    and hs2: "heap_m_size st' = heap_m_size st"
    using al1 hs1 by auto
  have run: "free_overlap st = Inr st'"
    using assms(1) spc loop del fr1 by (simp add: free_overlap_def f0)
  have Ksub: "set ?K \<subseteq> set ?xs"
    using spec_filtered_subset [of "start_of st" "size_of st" ?f "tl ?xs"] xs
    by (metis list.set_intros(2) subset_iff)
  have kept: "\<forall>p\<in>set (m_freed_chunks st').
                \<exists>c. chunks st' p = Some c \<and> \<not> m_marked c
                   \<and> m_start c = start_of st p \<and> m_size c = size_of st p"
  proof
    fix p assume "p \<in> set (m_freed_chunks st')"
    then have p: "p \<in> set (?f # ?K)"
      using fr2 by simp
    then have pin: "p \<in> set ?xs"
      using Ksub xs by (metis list.set_intros(1) set_ConsD subset_iff)
    then obtain c where c: "chunks st p = Some c"
      using valid by auto
    have "\<exists>c1. chunks st1 p = Some c1 \<and> m_marked c1 \<and> m_start c1 = m_start c \<and> m_size c1 = m_size c"
      using p c c1 spc by (cases "p = ?f"; cases "p \<in> set ?K") auto
    then show "\<exists>c. chunks st' p = Some c \<and> \<not> m_marked c
                 \<and> m_start c = start_of st p \<and> m_size c = size_of st p"
      using c2 pin c by (auto simp: is_marked_def start_of_def size_of_def)
  qed
  show ?thesis
    using run fr2 kept al2 hs2 by blast
qed

text \<open>
  Freed chunks that do not wrap around. \<open>free_overlap\<close> runs on a non-empty freed list
  (\<open>free\<close> calls it on no other) of distinct pointers to existing chunks, none of which
  wraps around the end of the address space. It completes, and the freed list it leaves is
  the first chunk followed by the chunks that the specification's rule keeps (\<open>next\<close> is
  kept iff \<open>next.start \<ge> prev.start + prev.size\<close> for the last kept chunk \<open>prev\<close>). Of
  any two chunks that remain the earlier one ends before the later one starts, so their
  address ranges are disjoint.
\<close>

theorem free_overlap_disjoint:
  assumes "m_freed_chunks st \<noteq> []"
    and "distinct (m_freed_chunks st)"
    and "\<forall>p\<in>set (m_freed_chunks st). \<exists>c. chunks st p = Some c \<and> m_start c \<le> m_start c + m_size c"
  shows "\<exists>st'. free_overlap st = Inr st'
           \<and> m_freed_chunks st' =
               hd (m_freed_chunks st)
               # spec_filtered (start_of st) (size_of st) (hd (m_freed_chunks st))
                   (tl (m_freed_chunks st))
           \<and> (\<forall>i j. i < j \<and> j < length (m_freed_chunks st') \<longrightarrow>
                 (\<exists>ci cj. chunks st' (m_freed_chunks st' ! i) = Some ci
                        \<and> chunks st' (m_freed_chunks st' ! j) = Some cj
                        \<and> unat (m_start ci) + unat (m_size ci) \<le> unat (m_start cj)
                        \<and> chunk_range ci \<inter> chunk_range cj = {}))"
proof -
  let ?xs = "m_freed_chunks st"
  let ?f = "hd ?xs"
  let ?K = "spec_filtered (start_of st) (size_of st) ?f (tl ?xs)"
  from assms(1) have xs: "?xs = ?f # tl ?xs"
    by (cases ?xs; simp)
  have valid: "\<forall>p\<in>set ?xs. chunks st p \<noteq> None"
    using assms(3) by auto
  from free_overlap_result [OF assms(1,2) valid] obtain st' where
    run: "free_overlap st = Inr st'"
    and fr2: "m_freed_chunks st' = ?f # ?K"
    and kept: "\<forall>p\<in>set (m_freed_chunks st').
                \<exists>c. chunks st' p = Some c \<and> \<not> m_marked c
                   \<and> m_start c = start_of st p \<and> m_size c = size_of st p"
    by blast
  have nowrap: "start_of st ?f \<le> start_of st ?f + size_of st ?f"
    "\<forall>n\<in>set (tl ?xs). start_of st n \<le> start_of st n + size_of st n"
    using assms(3) xs
    by (metis (no_types, lifting) list.set_intros(1) option.simps(5) start_of_def size_of_def,
        metis (no_types, lifting) list.set_intros(2) option.simps(5) start_of_def size_of_def)
  have sorted: "sorted_wrt (\<lambda>a b. unat (start_of st a) + unat (size_of st a) \<le> unat (start_of st b))
                  (?f # ?K)"
    using nowrap by (rule spec_filtered_ordered)
  have pairs: "\<forall>i j. i < j \<and> j < length (m_freed_chunks st') \<longrightarrow>
                 (\<exists>ci cj. chunks st' (m_freed_chunks st' ! i) = Some ci
                        \<and> chunks st' (m_freed_chunks st' ! j) = Some cj
                        \<and> unat (m_start ci) + unat (m_size ci) \<le> unat (m_start cj)
                        \<and> chunk_range ci \<inter> chunk_range cj = {})"
  proof (intro allI impI)
    fix i j assume ij: "i < j \<and> j < length (m_freed_chunks st')"
    then have i: "i < length (m_freed_chunks st')" and j: "j < length (m_freed_chunks st')"
      by auto
    from kept nth_mem [OF i] obtain ci where
      ci: "chunks st' (m_freed_chunks st' ! i) = Some ci"
        "m_start ci = start_of st (m_freed_chunks st' ! i)"
        "m_size ci = size_of st (m_freed_chunks st' ! i)"
      by blast
    from kept nth_mem [OF j] obtain cj where
      cj: "chunks st' (m_freed_chunks st' ! j) = Some cj"
        "m_start cj = start_of st (m_freed_chunks st' ! j)"
        "m_size cj = size_of st (m_freed_chunks st' ! j)"
      by blast
    have "unat (m_start ci) + unat (m_size ci) \<le> unat (m_start cj)"
      using sorted_wrt_nth_less [OF sorted, of i j] ij ci cj fr2 by simp
    then show "\<exists>ci cj. chunks st' (m_freed_chunks st' ! i) = Some ci
                        \<and> chunks st' (m_freed_chunks st' ! j) = Some cj
                        \<and> unat (m_start ci) + unat (m_size ci) \<le> unat (m_start cj)
                        \<and> chunk_range ci \<inter> chunk_range cj = {}"
      using ci(1) cj(1) ordered_disjoint by blast
  qed
  show ?thesis
    using run fr2 pairs by blast
qed

theorem free_overlap_disjoint_witness:
  "\<exists>st' c0 c2. free_overlap heap_three_freed = Inr st'
     \<and> m_freed_chunks st' = [0, 2]
     \<and> chunks st' 0 = Some c0 \<and> chunks st' 2 = Some c2
     \<and> unat (m_start c0) + unat (m_size c0) \<le> unat (m_start c2)
     \<and> chunk_range c0 \<inter> chunk_range c2 = {}"
proof -
  have ne: "m_freed_chunks heap_three_freed \<noteq> []"
    and d: "distinct (m_freed_chunks heap_three_freed)"
    and v: "\<forall>p\<in>set (m_freed_chunks heap_three_freed).
              \<exists>c. chunks heap_three_freed p = Some c \<and> m_start c \<le> m_start c + m_size c"
    by (simp_all add: heap_three_freed_def empty_heap_def new_Chunk_def)
  from free_overlap_disjoint [OF ne d v] obtain st' where
    r: "free_overlap heap_three_freed = Inr st'"
    and f: "m_freed_chunks st' =
              hd (m_freed_chunks heap_three_freed)
              # spec_filtered (start_of heap_three_freed) (size_of heap_three_freed)
                  (hd (m_freed_chunks heap_three_freed)) (tl (m_freed_chunks heap_three_freed))"
    and p: "\<forall>i j. i < j \<and> j < length (m_freed_chunks st') \<longrightarrow>
                 (\<exists>ci cj. chunks st' (m_freed_chunks st' ! i) = Some ci
                        \<and> chunks st' (m_freed_chunks st' ! j) = Some cj
                        \<and> unat (m_start ci) + unat (m_size ci) \<le> unat (m_start cj)
                        \<and> chunk_range ci \<inter> chunk_range cj = {})"
    by blast
  have f': "m_freed_chunks st' = [0, 2]"
    using f by (simp add: heap_three_freed_def empty_heap_def new_Chunk_def start_of_def size_of_def)
  have "(0::nat) < 1 \<and> 1 < length (m_freed_chunks st')"
    using f' by simp
  with p have "\<exists>ci cj. chunks st' (m_freed_chunks st' ! 0) = Some ci
                        \<and> chunks st' (m_freed_chunks st' ! 1) = Some cj
                        \<and> unat (m_start ci) + unat (m_size ci) \<le> unat (m_start cj)
                        \<and> chunk_range ci \<inter> chunk_range cj = {}"
    by blast
  with r f' show ?thesis by auto
qed

subsection \<open>free\<close>

lemma free_drain_spec:
  assumes "distinct (m_freed_chunks st)" and "\<forall>p\<in>set (m_freed_chunks st). chunks st p \<noteq> None"
  shows "\<exists>st'. free_drain st = Inr st'
           \<and> m_freed_chunks st' = []
           \<and> (\<forall>p. chunks st' p = (if p \<in> set (m_freed_chunks st) then None else chunks st p))
           \<and> m_allocated_chunks st' = m_allocated_chunks st
           \<and> heap_m_size st' = heap_m_size st"
  using assms
proof (induction st rule: free_drain.induct)
  case (1 st)
  let ?xs = "m_freed_chunks st"
  show ?case
  proof (cases "?xs = []")
    case True
    then show ?thesis
      by (subst free_drain.simps) simp
  next
    case ne: False
    then have xs: "?xs = butlast ?xs @ [last ?xs]"
      by simp
    have lin: "last ?xs \<in> set ?xs"
      using ne by simp
    then obtain chunk where some: "chunks st (last ?xs) = Some chunk"
      using "1.prems"(2) by auto
    let ?st1 = "delete_chunk (last ?xs)
                  (record_event (ChunkFreed chunk) (st\<lparr>m_freed_chunks := butlast ?xs\<rparr>))"
    have len: "length ?xs \<noteq> 0"
      using ne by simp
    have d: "distinct (butlast ?xs)" and notin: "last ?xs \<notin> set (butlast ?xs)"
      using "1.prems"(1) xs by (metis distinct_butlast, metis distinct_append disjoint_iff list.set_intros(1))
    have d1: "distinct (m_freed_chunks ?st1)"
      using d by simp
    have v1: "\<forall>p\<in>set (m_freed_chunks ?st1). chunks ?st1 p \<noteq> None"
      using "1.prems"(2) notin by (auto dest: in_set_butlastD)
    from "1.IH" [OF len some d1 v1] obtain st' where
      r: "free_drain ?st1 = Inr st'"
      and f: "m_freed_chunks st' = []"
      and c: "\<forall>p. chunks st' p = (if p \<in> set (butlast ?xs) then None else chunks ?st1 p)"
      and rest: "m_allocated_chunks st' = m_allocated_chunks st" "heap_m_size st' = heap_m_size st"
      by auto
    have run: "free_drain st = Inr st'"
      using ne some r by (subst free_drain.simps) simp
    have "set ?xs = insert (last ?xs) (set (butlast ?xs))"
      using xs by (metis Un_insert_right append_Nil2 list.simps(15) set_append)
    then have c': "\<forall>p. chunks st' p = (if p \<in> set ?xs then None else chunks st p)"
      using c by auto
    show ?thesis
      using run f c' rest by blast
  qed
qed

lemma free_heap_m_size:
  assumes "distinct (m_freed_chunks st)" and "\<forall>p\<in>set (m_freed_chunks st). chunks st p \<noteq> None"
  shows "\<exists>st'. free FREE_THRESH st = Inr st'
            \<and> m_allocated_chunks st' = m_allocated_chunks st
            \<and> heap_m_size st' = heap_m_size st"
proof (cases "length (m_freed_chunks st) > FREE_THRESH")
  case True
  then show ?thesis
    using free_drain_spec [OF assms] by (auto simp: free_def)
next
  case False
  show ?thesis
  proof (cases "m_freed_chunks st = []")
    case True
    then show ?thesis using False by (simp add: free_def)
  next
    case ne: False
    then show ?thesis
      using False free_overlap_result [OF ne assms] by (auto simp: free_def)
  qed
qed

text \<open>
  C7. The freed list holds distinct pointers to existing chunks. When it is longer than
  \<open>FREE_THRESH\<close>, \<open>free\<close> empties it and deletes every chunk that was in it, and \<open>used\<close>
  stays as it was. When it is not empty and not longer than \<open>FREE_THRESH\<close>, \<open>free\<close> is
  \<open>free_overlap\<close>, which drains nothing wholesale: the first freed chunk is still the first
  of the freed list and still exists, and \<open>used\<close> stays as it was.
\<close>

theorem free_threshold:
  assumes "distinct (m_freed_chunks st)" and "\<forall>p\<in>set (m_freed_chunks st). chunks st p \<noteq> None"
  shows "(length (m_freed_chunks st) > FREE_THRESH \<longrightarrow>
            (\<exists>st'. free FREE_THRESH st = Inr st'
               \<and> m_freed_chunks st' = []
               \<and> (\<forall>p\<in>set (m_freed_chunks st). chunks st' p = None)
               \<and> heap_m_size st' = heap_m_size st))
       \<and> (0 < length (m_freed_chunks st) \<and> length (m_freed_chunks st) \<le> FREE_THRESH \<longrightarrow>
            free FREE_THRESH st = free_overlap st
            \<and> (\<exists>st'. free FREE_THRESH st = Inr st'
                 \<and> m_freed_chunks st' \<noteq> []
                 \<and> hd (m_freed_chunks st') = hd (m_freed_chunks st)
                 \<and> chunks st' (hd (m_freed_chunks st)) \<noteq> None
                 \<and> heap_m_size st' = heap_m_size st))"
proof (intro conjI impI)
  assume "length (m_freed_chunks st) > FREE_THRESH"
  then show "\<exists>st'. free FREE_THRESH st = Inr st'
               \<and> m_freed_chunks st' = []
               \<and> (\<forall>p\<in>set (m_freed_chunks st). chunks st' p = None)
               \<and> heap_m_size st' = heap_m_size st"
    using free_drain_spec [OF assms] by (auto simp: free_def)
next
  assume a: "0 < length (m_freed_chunks st) \<and> length (m_freed_chunks st) \<le> FREE_THRESH"
  then show eq: "free FREE_THRESH st = free_overlap st"
    by (simp add: free_def)
  from a have ne: "m_freed_chunks st \<noteq> []"
    by auto
  from free_overlap_result [OF ne assms] eq
  show "\<exists>st'. free FREE_THRESH st = Inr st'
                 \<and> m_freed_chunks st' \<noteq> []
                 \<and> hd (m_freed_chunks st') = hd (m_freed_chunks st)
                 \<and> chunks st' (hd (m_freed_chunks st)) \<noteq> None
                 \<and> heap_m_size st' = heap_m_size st"
    by fastforce
qed

theorem free_threshold_witness:
  "(\<exists>st'. free 4 heap_five_freed = Inr st'
      \<and> m_freed_chunks st' = []
      \<and> chunks st' 0 = None \<and> chunks st' 4 = None
      \<and> heap_m_size st' = 80)
   \<and> free 5 heap_five_freed = free_overlap heap_five_freed
   \<and> (\<exists>st'. free 5 heap_five_freed = Inr st'
        \<and> m_freed_chunks st' \<noteq> []
        \<and> hd (m_freed_chunks st') = 0
        \<and> chunks st' 0 \<noteq> None
        \<and> heap_m_size st' = 80)"
proof -
  have d: "distinct (m_freed_chunks heap_five_freed)"
    and v: "\<forall>p\<in>set (m_freed_chunks heap_five_freed). chunks heap_five_freed p \<noteq> None"
    and l: "length (m_freed_chunks heap_five_freed) = 5"
    and h: "hd (m_freed_chunks heap_five_freed) = 0" "heap_m_size heap_five_freed = 80"
    and s: "set (m_freed_chunks heap_five_freed) = {0, 1, 2, 3, 4}"
    by (auto simp: heap_five_freed_def empty_heap_def)
  from free_threshold [OF d v, of 4] l
  have 1: "\<exists>st'. free 4 heap_five_freed = Inr st'
      \<and> m_freed_chunks st' = []
      \<and> chunks st' 0 = None \<and> chunks st' 4 = None
      \<and> heap_m_size st' = 80"
    unfolding s h by auto
  have "(0::nat) < 5 \<and> (5::nat) \<le> 5 \<longrightarrow>
          free 5 heap_five_freed = free_overlap heap_five_freed
          \<and> (\<exists>st'. free 5 heap_five_freed = Inr st'
               \<and> m_freed_chunks st' \<noteq> []
               \<and> hd (m_freed_chunks st') = 0
               \<and> chunks st' 0 \<noteq> None
               \<and> heap_m_size st' = 80)"
    using free_threshold [OF d v, of 5] unfolding l h by (rule conjunct2)
  then have 2: "free 5 heap_five_freed = free_overlap heap_five_freed
   \<and> (\<exists>st'. free 5 heap_five_freed = Inr st'
        \<and> m_freed_chunks st' \<noteq> []
        \<and> hd (m_freed_chunks st') = 0
        \<and> chunks st' 0 \<noteq> None
        \<and> heap_m_size st' = 80)"
    by (rule mp) simp
  from 1 2 show ?thesis by blast
qed

subsection \<open>mark\<close>

declare mark.simps [simp del] mark_for.simps [simp del] mark_while.simps [simp del]

lemma chunk_kept_refl: "chunk_kept st st p"
  by (simp add: chunk_kept_def split: option.splits)

lemma chunk_kept_trans:
  "chunk_kept st st' p \<Longrightarrow> chunk_kept st' st'' p \<Longrightarrow> chunk_kept st st'' p"
  by (auto simp: chunk_kept_def split: option.splits)

lemma chunk_kept_marked: "chunk_kept st st' p \<Longrightarrow> is_marked st p \<Longrightarrow> is_marked st' p"
  by (auto simp: chunk_kept_def is_marked_def split: option.splits)

lemma mark_ext_refl: "mark_ext ws ws"
  by (simp add: mark_ext_def chunk_kept_refl)

lemma mark_ext_trans:
  assumes "mark_ext ws ws'" and "mark_ext ws' ws''"
  shows "mark_ext ws ws''"
proof -
  have k: "\<forall>p. chunk_kept (snd ws) (snd ws'') p"
    using assms by (auto simp: mark_ext_def intro: chunk_kept_trans)
  have e: "\<forall>p\<in>v_elems (fst ws). p \<in> v_elems (fst ws'') \<or> is_marked (snd ws'') p"
  proof
    fix p assume "p \<in> v_elems (fst ws)"
    then have "p \<in> v_elems (fst ws') \<or> is_marked (snd ws') p"
      using assms(1) by (simp add: mark_ext_def)
    then show "p \<in> v_elems (fst ws'') \<or> is_marked (snd ws'') p"
      using assms(2) by (auto simp: mark_ext_def intro: chunk_kept_marked)
  qed
  show ?thesis
    using assms k e unfolding mark_ext_def by (intro conjI) auto
qed

lemma chunk_kept_same: "chunks st' = chunks st \<Longrightarrow> chunk_kept st st' p"
  by (simp add: chunk_kept_def split: option.splits)

lemma mark_ext_record: "mark_ext (wl, st) (wl, record_event ev st)"
  by (simp add: mark_ext_def chunk_kept_same)

lemma take_two_of_three:
  "length xs + length ys = k \<Longrightarrow> take k (xs @ ys @ zs) = xs @ ys"
  by simp

lemma v_erase_elems:
  assumes "it < v_size wl" and "it < length (v_buf wl)"
  shows "v_elems wl \<subseteq> insert (v_buf wl ! it) (v_elems (v_erase it wl))"
proof -
  let ?n = "v_size wl" and ?b = "v_buf wl"
  have t: "take (?n - 1) (v_buf (v_erase it wl)) = take it ?b @ drop (Suc it) (take ?n ?b)"
  proof (cases "?n \<le> length ?b")
    case True
    then have "length (take it ?b) + length (drop (Suc it) (take ?n ?b)) = ?n - 1"
      using assms by (simp add: min_def)
    then have "take (?n - 1) (take it ?b @ drop (Suc it) (take ?n ?b) @ drop (?n - 1) ?b)
                 = take it ?b @ drop (Suc it) (take ?n ?b)"
      by (rule take_two_of_three)
    then show ?thesis
      by (simp add: v_erase_def)
  next
    case False
    then have e: "drop (?n - 1) ?b = []"
      by simp
    have "length (take it ?b @ drop (Suc it) (take ?n ?b)) \<le> ?n - 1"
      using assms False by (auto simp: min_def)
    then have "take (?n - 1) (take it ?b @ drop (Suc it) (take ?n ?b))
                 = take it ?b @ drop (Suc it) (take ?n ?b)"
      by (rule take_all)
    then show ?thesis
      using e by (simp add: v_erase_def)
  qed
  have "take ?n ?b = take it (take ?n ?b) @ (take ?n ?b ! it) # drop (Suc it) (take ?n ?b)"
    using assms by (intro id_take_nth_drop) simp
  moreover have "take it (take ?n ?b) = take it ?b" "take ?n ?b ! it = ?b ! it"
    using assms by (simp_all add: min_def)
  ultimately have "take ?n ?b = take it ?b @ (?b ! it) # drop (Suc it) (take ?n ?b)"
    by simp
  then have "set (take ?n ?b) = set (take it ?b) \<union> {?b ! it} \<union> set (drop (Suc it) (take ?n ?b))"
    by (metis Un_insert_right list.simps(15) set_append sup_bot.right_neutral Un_assoc insert_is_Un)
  then show ?thesis
    using t by (auto simp: v_elems_def v_erase_def)
qed

lemma v_erase_buf: "set (v_buf (v_erase it wl)) \<subseteq> set (v_buf wl)"
  by (auto simp: v_erase_def dest: in_set_takeD in_set_dropD)

lemma mark_ext_erase:
  assumes "it < v_size wl" and "it < length (v_buf wl)"
    and "chunks st (v_buf wl ! it) = Some c"
  shows "mark_ext (wl, st)
           (v_erase it wl, set_marked (v_buf wl ! it) c True (record_event ev st))"
proof -
  let ?st' = "set_marked (v_buf wl ! it) c True (record_event ev st)"
  have k: "\<forall>p. chunk_kept st ?st' p"
    using assms(3) by (auto simp: chunk_kept_def split: option.splits)
  have m: "is_marked ?st' (v_buf wl ! it)"
    by (simp add: is_marked_def)
  have e: "\<forall>p\<in>v_elems wl. p \<in> v_elems (v_erase it wl) \<or> is_marked ?st' p"
    using v_erase_elems [OF assms(1,2)] m by auto
  have l: "v_size wl \<le> length (v_buf wl) \<longrightarrow> length (v_buf (v_erase it wl)) = length (v_buf wl)"
    using assms(1,2) by (auto simp: v_erase_def min_def)
  have s: "v_size (v_erase it wl) \<le> v_size wl"
    by (simp add: v_erase_def)
  show ?thesis
    using k e l s v_erase_buf [of it wl] by (simp add: mark_ext_def)
qed

lemma mark_ext_all:
  "mark d1 s1 e1 ws1 = Inr r1 \<longrightarrow> mark_ext ws1 r1"
  "mark_for d2 s2 e2 ws2 = Inr r2 \<longrightarrow> mark_ext ws2 r2"
  "mark_while d3 s3 it3 stop3 ws3 = Inr r3 \<longrightarrow> mark_ext ws3 r3"
proof (induction d1 s1 e1 ws1 and d2 s2 e2 ws2 and d3 s3 it3 stop3 ws3
        arbitrary: r1 and r2 and r3 rule: mark_mark_for_mark_while.induct)
  case (1 d start end' worklist st)
  show ?case
  proof
    assume "mark d start end' (worklist, st) = Inr r1"
    then have "mark_for d start end' (worklist, record_event MarkStart st) = Inr r1"
      by (simp add: mark.simps)
    with 1 have "mark_ext (worklist, record_event MarkStart st) r1"
      by blast
    with mark_ext_record show "mark_ext (worklist, st) r1"
      by (rule mark_ext_trans)
  qed
next
  case (2 d start end' worklist st)
  show ?case
  proof
    assume run: "mark_for d start end' (worklist, st) = Inr r2"
    show "mark_ext (worklist, st) r2"
    proof (cases "start \<le> end'")
      case False
      with run show ?thesis
        by (subst (asm) mark_for.simps) (simp add: mark_ext_refl)
    next
      case True
      with run obtain b where w: "mark_while d start 0 (v_size worklist) (worklist, st) = Inr b"
        and ov: "start \<le> start + 8" and f: "mark_for d (start + 8) end' b = Inr r2"
        by (subst (asm) mark_for.simps) (simp split: sum.splits if_splits)
      from "2.IH"(1) [OF True] w have "mark_ext (worklist, st) b"
        by blast
      moreover from "2.IH"(2) [OF True w ov] f have "mark_ext b r2"
        by blast
      ultimately show ?thesis
        by (rule mark_ext_trans)
    qed
  qed
next
  case (3 d start it stop worklist st)
  show ?case
  proof
    assume run: "mark_while d start it stop (worklist, st) = Inr r3"
    show "mark_ext (worklist, st) r3"
    proof (cases "it = stop")
      case True
      with run show ?thesis
        by (subst (asm) mark_while.simps) (simp add: mark_ext_refl)
    next
      case ne: False
      with run have inb: "it < length (v_buf worklist)"
        by (subst (asm) mark_while.simps) (simp split: if_splits)
      with run ne obtain chunk where some: "chunks st (v_buf worklist ! it) = Some chunk"
        by (subst (asm) mark_while.simps) (simp split: option.splits)
      let ?hit = "m_start chunk \<le> mem st start \<and> mem st start < m_start chunk + m_size chunk"
      show ?thesis
      proof (cases "?hit \<and> \<not> m_marked chunk")
        case False
        then have "mark_while d start (it + 1) stop (worklist, st) = Inr r3"
          using run ne inb some by (subst (asm) mark_while.simps) (auto split: if_splits)
        moreover from False have "(?hit \<and> \<not> \<not> m_marked chunk) \<or> \<not> ?hit"
          by blast
        ultimately show ?thesis
          using "3.IH"(3) [OF ne inb some] "3.IH"(4) [OF ne inb some] by blast
      next
        case True
        then have hit: ?hit and unmarked: "\<not> m_marked chunk"
          by simp_all
        from run ne inb some True have ins: "it < v_size worklist"
          by (subst (asm) mark_while.simps) (simp split: if_splits)
        from run ne inb some True ins obtain d' where d: "d = Suc d'"
          by (subst (asm) mark_while.simps) (cases d; simp)
        let ?ws1 = "(v_erase it worklist,
                     set_marked (v_buf worklist ! it) chunk True
                       (record_event (ChunkMarked chunk) st))"
        from run ne inb some True ins d obtain b where
          m: "mark d' (m_start chunk) (m_start chunk + m_size chunk) ?ws1 = Inr b"
          and w: "mark_while d' start it stop b = Inr r3"
          by (subst (asm) mark_while.simps) (simp split: sum.splits)
        have "mark_ext (worklist, st) ?ws1"
          using ins inb some by (rule mark_ext_erase)
        moreover from "3.IH"(1) [OF ne inb some hit unmarked ins d] m have "mark_ext ?ws1 b"
          by blast
        moreover from "3.IH"(2) [OF ne inb some hit unmarked ins d m] w have "mark_ext b r3"
          by blast
        ultimately show ?thesis
          by (blast intro: mark_ext_trans)
      qed
    qed
  qed
qed

lemma mark_ext_marked:
  "mark_ext (wl, st) r \<Longrightarrow> is_marked st p \<Longrightarrow> is_marked (snd r) p"
  by (auto simp: mark_ext_def intro: chunk_kept_marked)

lemma mark_while_hits:
  assumes "mark_while d start it stop (wl, st) = Inr r"
    and "chunks st p = Some c"
    and "points_into c (mem st start)"
    and "\<forall>q\<in>set (v_buf wl). q \<noteq> p \<longrightarrow>
           (\<forall>cq. chunks st q = Some cq \<longrightarrow> \<not> points_into cq (mem st start))"
    and "m_marked c \<or>
         (\<exists>k. it \<le> k \<and> k < v_size wl \<and> k < stop \<and> k < length (v_buf wl) \<and> v_buf wl ! k = p)"
  shows "is_marked (snd r) p"
  using assms(1,5)
proof (induction "length (v_buf wl) - it" arbitrary: it)
  case 0
  then have "m_marked c"
    by auto
  then have "is_marked st p"
    using assms(2) by (simp add: is_marked_def)
  moreover have "mark_ext (wl, st) r"
    using "0.prems"(1) mark_ext_all(3) by blast
  ultimately show ?case
    by (rule mark_ext_marked [rotated])
next
  case (Suc n)
  note run = Suc.prems(1)
  have ext: "mark_ext (wl, st) r"
    using run mark_ext_all(3) by blast
  show ?case
  proof (cases "m_marked c")
    case True
    then have "is_marked st p"
      using assms(2) by (simp add: is_marked_def)
    with ext show ?thesis
      by (rule mark_ext_marked)
  next
    case unmarked: False
    with Suc.prems(2) obtain k where
      k: "it \<le> k" "k < v_size wl" "k < stop" "k < length (v_buf wl)" "v_buf wl ! k = p"
      by blast
    then have ne: "it \<noteq> stop" and inb: "it < length (v_buf wl)"
      by auto
    from run ne inb obtain chunk where some: "chunks st (v_buf wl ! it) = Some chunk"
      by (subst (asm) mark_while.simps) (simp split: option.splits)
    show ?thesis
    proof (cases "v_buf wl ! it = p")
      case True
      then have ch: "chunk = c"
        using some assms(2) by simp
      have hit: "m_start c \<le> mem st start \<and> mem st start < m_start c + m_size c"
        using assms(3) by (simp add: points_into_def)
      from run ne inb some ch hit unmarked have ins: "it < v_size wl"
        by (subst (asm) mark_while.simps) (simp split: if_splits)
      from run ne inb some ch hit unmarked ins obtain d' where d: "d = Suc d'"
        by (subst (asm) mark_while.simps) (cases d; simp)
      let ?ws1 = "(v_erase it wl,
                   set_marked (v_buf wl ! it) c True (record_event (ChunkMarked c) st))"
      from run ne inb some ch hit unmarked ins d obtain b where
        m: "mark d' (m_start c) (m_start c + m_size c) ?ws1 = Inr b"
        and w: "mark_while d' start it stop b = Inr r"
        by (subst (asm) mark_while.simps) (simp split: sum.splits)
      have "is_marked (snd ?ws1) p"
        using True by (simp add: is_marked_def)
      moreover have "mark_ext ?ws1 b"
        using m mark_ext_all(1) by blast
      moreover have "mark_ext b r"
        using w mark_ext_all(3) by blast
      ultimately show ?thesis
        by (metis mark_ext_marked mark_ext_trans prod.collapse)
    next
      case other: False
      then have nohit: "\<not> (m_start chunk \<le> mem st start \<and> mem st start < m_start chunk + m_size chunk)"
        using assms(4) some inb by (auto simp: points_into_def)
      from run ne inb some nohit have nxt: "mark_while d start (it + 1) stop (wl, st) = Inr r"
        by (subst (asm) mark_while.simps) (simp split: if_splits)
      have "k \<noteq> it"
        using other k(5) by auto
      then have "m_marked c \<or>
         (\<exists>k. it + 1 \<le> k \<and> k < v_size wl \<and> k < stop \<and> k < length (v_buf wl) \<and> v_buf wl ! k = p)"
        using k by (intro disjI2 exI [of _ k]) auto
      moreover have "n = length (v_buf wl) - (it + 1)"
        using Suc.hyps(2) by simp
      ultimately show ?thesis
        using Suc.hyps(1) nxt by blast
    qed
  qed
qed

lemma mark_for_hits:
  assumes "mark_for d start end' (wl, st) = Inr r"
    and "unat start + 8 * k \<le> unat end'"
    and "chunks st p = Some c"
    and "points_into c (mem st (start + 8 * of_nat k))"
    and "\<forall>q\<in>set (v_buf wl). q \<noteq> p \<longrightarrow>
           (\<forall>cq. chunks st q = Some cq \<longrightarrow> \<not> points_into cq (mem st (start + 8 * of_nat k)))"
    and "m_marked c \<or> p \<in> v_elems wl"
  shows "is_marked (snd r) p"
  using assms
proof (induction k arbitrary: start wl st c)
  case 0
  have le: "start \<le> end'"
    using "0.prems"(2) by (simp add: word_le_nat_alt)
  from "0.prems"(1) le obtain b where
    w: "mark_while d start 0 (v_size wl) (wl, st) = Inr b"
    and f: "mark_for d (start + 8) end' b = Inr r"
    by (subst (asm) mark_for.simps) (simp split: sum.splits if_splits)
  have pos: "m_marked c \<or>
         (\<exists>k. 0 \<le> k \<and> k < v_size wl \<and> k < v_size wl \<and> k < length (v_buf wl) \<and> v_buf wl ! k = p)"
    using "0.prems"(6) by (auto simp: v_elems_def in_set_conv_nth)
  have hit0: "points_into c (mem st start)"
    using "0.prems"(4) by simp
  have others0: "\<forall>q\<in>set (v_buf wl). q \<noteq> p \<longrightarrow>
           (\<forall>cq. chunks st q = Some cq \<longrightarrow> \<not> points_into cq (mem st start))"
    using "0.prems"(5) by simp
  have "is_marked (snd b) p"
    using w "0.prems"(3) hit0 others0 pos by (rule mark_while_hits)
  moreover have "mark_ext b r"
    using f mark_ext_all(2) by blast
  ultimately show ?case
    by (metis mark_ext_marked prod.collapse)
next
  case (Suc k)
  have le: "start \<le> end'"
    using Suc.prems(2) by (simp add: word_le_nat_alt)
  from Suc.prems(1) le obtain wl1 st1 where
    w: "mark_while d start 0 (v_size wl) (wl, st) = Inr (wl1, st1)"
    and ov: "start \<le> start + 8"
    and f: "mark_for d (start + 8) end' (wl1, st1) = Inr r"
    by (subst (asm) mark_for.simps) (auto split: sum.splits if_splits)
  have ext: "mark_ext (wl, st) (wl1, st1)"
    using w mark_ext_all(3) by blast
  have u: "unat (start + 8) = unat start + 8"
    using ov by (simp add: unat_plus_simple)
  have a: "unat (start + 8) + 8 * k \<le> unat end'"
    using Suc.prems(2) u by simp
  have s: "start + 8 * of_nat (Suc k) = (start + 8) + 8 * of_nat k"
    by (simp add: algebra_simps)
  have kept: "\<And>q. chunk_kept st st1 q" and memeq: "mem st1 = mem st"
    and sub: "set (v_buf wl1) \<subseteq> set (v_buf wl)"
    and el: "\<forall>p\<in>v_elems wl. p \<in> v_elems wl1 \<or> is_marked st1 p"
    using ext by (simp_all add: mark_ext_def)
  from kept [of p] Suc.prems(3) obtain c1 where
    c1: "chunks st1 p = Some c1" "m_start c1 = m_start c" "m_size c1 = m_size c"
      "m_marked c \<longrightarrow> m_marked c1"
    by (auto simp: chunk_kept_def split: option.splits)
  note hit0 = Suc.prems(4) [unfolded s]
  note others0 = Suc.prems(5) [unfolded s]
  have hit: "points_into c1 (mem st1 ((start + 8) + 8 * of_nat k))"
    using hit0 c1 by (simp add: points_into_def memeq)
  have others: "\<forall>q\<in>set (v_buf wl1). q \<noteq> p \<longrightarrow>
           (\<forall>cq. chunks st1 q = Some cq \<longrightarrow>
              \<not> points_into cq (mem st1 ((start + 8) + 8 * of_nat k)))"
  proof (intro ballI impI allI)
    fix q cq assume q: "q \<in> set (v_buf wl1)" "q \<noteq> p" "chunks st1 q = Some cq"
    from kept [of q] q(3) obtain cq0 where
      "chunks st q = Some cq0" "m_start cq = m_start cq0" "m_size cq = m_size cq0"
      by (auto simp: chunk_kept_def split: option.splits)
    moreover have "q \<in> set (v_buf wl)"
      using q(1) sub by auto
    ultimately show "\<not> points_into cq (mem st1 ((start + 8) + 8 * of_nat k))"
      using others0 q(2) by (auto simp: points_into_def memeq)
  qed
  have pos: "m_marked c1 \<or> p \<in> v_elems wl1"
    using Suc.prems(6) c1 el by (auto simp: is_marked_def)
  show ?case
    using Suc.IH [OF f a c1(1) hit others pos] .
qed

lemma mark_fuel:
  "v_size (fst ws1) \<le> d1 \<longrightarrow> mark d1 s1 e1 ws1 \<noteq> Inl OutOfFuel"
  "v_size (fst ws2) \<le> d2 \<longrightarrow> mark_for d2 s2 e2 ws2 \<noteq> Inl OutOfFuel"
  "v_size (fst ws3) \<le> d3 \<longrightarrow> mark_while d3 s3 it3 stop3 ws3 \<noteq> Inl OutOfFuel"
proof (induction d1 s1 e1 ws1 and d2 s2 e2 ws2 and d3 s3 it3 stop3 ws3
        rule: mark_mark_for_mark_while.induct)
  case (1 d start end' worklist st)
  then show ?case
    by (simp add: mark.simps)
next
  case (2 d start end' worklist st)
  show ?case
  proof
    assume fuel: "v_size (fst (worklist, st)) \<le> d"
    show "mark_for d start end' (worklist, st) \<noteq> Inl OutOfFuel"
    proof (cases "start \<le> end'")
      case False
      then show ?thesis
        by (subst mark_for.simps) simp
    next
      case True
      show ?thesis
      proof (cases "mark_while d start 0 (v_size worklist) (worklist, st)")
        case (Inl e)
        then have "e \<noteq> OutOfFuel"
          using "2.IH"(1) [OF True] fuel by auto
        then show ?thesis
          using True Inl by (subst mark_for.simps) simp
      next
        case (Inr b)
        then have "mark_ext (worklist, st) b"
          using mark_ext_all(3) by blast
        then have "v_size (fst b) \<le> d"
          using fuel by (simp add: mark_ext_def)
        then have "start \<le> start + 8 \<Longrightarrow> mark_for d (start + 8) end' b \<noteq> Inl OutOfFuel"
          using "2.IH"(2) [OF True Inr] by blast
        then show ?thesis
          using True Inr by (subst mark_for.simps) simp
      qed
    qed
  qed
next
  case (3 d start it stop worklist st)
  show ?case
  proof
    assume fuel: "v_size (fst (worklist, st)) \<le> d"
    show "mark_while d start it stop (worklist, st) \<noteq> Inl OutOfFuel"
    proof (cases "it \<noteq> stop \<and> it < length (v_buf worklist)")
      case False
      then show ?thesis
        by (subst mark_while.simps) auto
    next
      case True
      then have ne: "it \<noteq> stop" and inb: "it < length (v_buf worklist)"
        by simp_all
      show ?thesis
      proof (cases "chunks st (v_buf worklist ! it)")
        case None
        then show ?thesis
          using ne inb by (subst mark_while.simps) simp
      next
        case (Some chunk)
        let ?hit = "m_start chunk \<le> mem st start \<and> mem st start < m_start chunk + m_size chunk"
        show ?thesis
        proof (cases "?hit \<and> \<not> m_marked chunk")
          case False
          then have "mark_while d start it stop (worklist, st)
                       = mark_while d start (it + 1) stop (worklist, st)"
            using ne inb Some by (subst mark_while.simps) auto
          moreover from False have "(?hit \<and> \<not> \<not> m_marked chunk) \<or> \<not> ?hit"
            by blast
          ultimately show ?thesis
            using "3.IH"(3) [OF ne inb Some] "3.IH"(4) [OF ne inb Some] fuel by auto
        next
          case hitun: True
          then have hit: ?hit and unmarked: "\<not> m_marked chunk"
            by simp_all
          show ?thesis
          proof (cases "it < v_size worklist")
            case False
            then show ?thesis
              using ne inb Some hitun by (subst mark_while.simps) simp
          next
            case ins: True
            then obtain d' where d: "d = Suc d'"
              using fuel by (cases d) auto
            let ?ws1 = "(v_erase it worklist,
                         set_marked (v_buf worklist ! it) chunk True
                           (record_event (ChunkMarked chunk) st))"
            have f1: "v_size (fst ?ws1) \<le> d'"
              using fuel d by (simp add: v_erase_def)
            show ?thesis
            proof (cases "mark d' (m_start chunk) (m_start chunk + m_size chunk) ?ws1")
              case (Inl e)
              then have "e \<noteq> OutOfFuel"
                using "3.IH"(1) [OF ne inb Some hit unmarked ins d] f1 by auto
              then show ?thesis
                using ne inb Some hitun ins d Inl by (subst mark_while.simps) simp
            next
              case (Inr b)
              then have "mark_ext ?ws1 b"
                using mark_ext_all(1) by blast
              then have "v_size (fst b) \<le> d'"
                using f1 by (simp add: mark_ext_def)
              then have "mark_while d' start it stop b \<noteq> Inl OutOfFuel"
                using "3.IH"(2) [OF ne inb Some hit unmarked ins d Inr] by blast
              then show ?thesis
                using ne inb Some hitun ins d Inr by (subst mark_while.simps) simp
            qed
          qed
        qed
      qed
    qed
  qed
qed

lemma points_into_range: "points_into c w \<Longrightarrow> w \<in> chunk_range c"
proof -
  assume "points_into c w"
  then have "m_start c \<le> w" and "unat w < unat (m_start c + m_size c)"
    by (simp_all add: points_into_def word_less_nat_alt)
  moreover have "unat (m_start c + m_size c) \<le> unat (m_start c) + unat (m_size c)"
    by (simp add: unat_word_ariths)
  ultimately show ?thesis
    by (simp add: chunk_range_def)
qed

lemma range_points_into:
  "w \<in> chunk_range c \<Longrightarrow> m_start c \<le> m_start c + m_size c \<Longrightarrow> points_into c w"
  by (simp add: chunk_range_def points_into_def word_less_nat_alt unat_plus_simple)

lemma mark_hits:
  assumes "mark d start end' (wl, st) = Inr r"
    and "unat start + 8 * k \<le> unat end'"
    and "chunks st p = Some c"
    and "points_into c (mem st (start + 8 * of_nat k))"
    and "\<forall>q\<in>set (v_buf wl). q \<noteq> p \<longrightarrow>
           (\<forall>cq. chunks st q = Some cq \<longrightarrow> \<not> points_into cq (mem st (start + 8 * of_nat k)))"
    and "m_marked c \<or> p \<in> v_elems wl"
  shows "is_marked (snd r) p"
proof -
  let ?st = "record_event MarkStart st"
  have run: "mark_for d start end' (wl, ?st) = Inr r"
    using assms(1) by (simp add: mark.simps)
  have c: "chunks ?st p = Some c"
    using assms(3) by simp
  have hit: "points_into c (mem ?st (start + 8 * of_nat k))"
    using assms(4) by simp
  have others: "\<forall>q\<in>set (v_buf wl). q \<noteq> p \<longrightarrow>
           (\<forall>cq. chunks ?st q = Some cq \<longrightarrow> \<not> points_into cq (mem ?st (start + 8 * of_nat k)))"
    using assms(5) by simp
  show ?thesis
    using run assms(2) c hit others assms(6) by (rule mark_for_hits)
qed


lemma free_drain_frame:
  "free_drain st = Inr st' \<Longrightarrow>
     m_allocated_chunks st' = m_allocated_chunks st \<and> heap_m_size st' = heap_m_size st"
proof (induction st rule: free_drain.induct)
  case (1 st)
  show ?case
  proof (cases "length (m_freed_chunks st) \<noteq> 0")
    case False
    with "1.prems" show ?thesis
      by (subst (asm) free_drain.simps) simp
  next
    case True
    with "1.prems" obtain chunk where some: "chunks st (last (m_freed_chunks st)) = Some chunk"
      by (subst (asm) free_drain.simps) (simp split: option.splits)
    let ?st1 = "delete_chunk (last (m_freed_chunks st))
                  (record_event (ChunkFreed chunk)
                     (st\<lparr>m_freed_chunks := butlast (m_freed_chunks st)\<rparr>))"
    have "free_drain ?st1 = Inr st'"
      using "1.prems" True some by (subst (asm) free_drain.simps) simp
    from "1.IH" [OF True some this] show ?thesis
      by simp
  qed
qed

lemma free_overlap_loop_frame:
  "free_overlap_loop i filtered st = Inr (filtered', st') \<Longrightarrow>
     m_allocated_chunks st' = m_allocated_chunks st \<and> heap_m_size st' = heap_m_size st
     \<and> m_freed_chunks st' = m_freed_chunks st"
proof (induction i filtered st rule: free_overlap_loop.induct)
  case (1 i filtered st)
  show ?case
  proof (cases "i < length (m_freed_chunks st)")
    case False
    with "1.prems" show ?thesis
      by (subst (asm) free_overlap_loop.simps) simp
  next
    case True
    with "1.prems" have ne: "filtered \<noteq> []"
      by (subst (asm) free_overlap_loop.simps) (simp split: if_splits)
    with "1.prems" True obtain prev where sp: "chunks st (last filtered) = Some prev"
      by (subst (asm) free_overlap_loop.simps) (simp split: option.splits)
    with "1.prems" True ne obtain nc where sn: "chunks st (m_freed_chunks st ! i) = Some nc"
      by (subst (asm) free_overlap_loop.simps) (simp split: option.splits)
    show ?thesis
    proof (cases "m_start prev + m_size prev \<le> m_start nc")
      case keep: True
      then have "free_overlap_loop (i + 1) (filtered @ [m_freed_chunks st ! i])
                   (set_marked (m_freed_chunks st ! i) nc True st) = Inr (filtered', st')"
        using "1.prems" True ne sp sn by (subst (asm) free_overlap_loop.simps) simp
      from "1.IH"(1) [OF True ne sp sn keep this] show ?thesis
        by simp
    next
      case drop: False
      then have "free_overlap_loop (i + 1) filtered st = Inr (filtered', st')"
        using "1.prems" True ne sp sn by (subst (asm) free_overlap_loop.simps) simp
      from "1.IH"(2) [OF True ne sp sn drop this] show ?thesis
        by simp
    qed
  qed
qed

lemma free_overlap_delete_frame:
  "free_overlap_delete ps st = Inr st' \<Longrightarrow>
     m_allocated_chunks st' = m_allocated_chunks st \<and> heap_m_size st' = heap_m_size st"
proof (induction ps arbitrary: st)
  case Nil
  then show ?case by simp
next
  case (Cons p ps)
  from Cons.prems obtain chunk where some: "chunks st p = Some chunk"
    by (simp split: option.splits)
  show ?case
  proof (cases "m_marked chunk")
    case True
    then have "free_overlap_delete ps (set_marked p chunk False st) = Inr st'"
      using Cons.prems some by simp
    from Cons.IH [OF this] show ?thesis
      by simp
  next
    case False
    then have "free_overlap_delete ps (delete_chunk p (record_event (ChunkFreed chunk) st)) = Inr st'"
      using Cons.prems some by simp
    from Cons.IH [OF this] show ?thesis
      by simp
  qed
qed

lemma free_frame:
  assumes "free FREE_THRESH st = Inr st'"
  shows "m_allocated_chunks st' = m_allocated_chunks st \<and> heap_m_size st' = heap_m_size st"
proof (cases "length (m_freed_chunks st) > FREE_THRESH")
  case True
  with assms show ?thesis
    by (simp add: free_def free_drain_frame)
next
  case False
  show ?thesis
  proof (cases "m_freed_chunks st = []")
    case True
    with assms False show ?thesis
      by (simp add: free_def)
  next
    case ne: False
    with assms False have fo: "free_overlap st = Inr st'"
      by (simp add: free_def)
    from fo ne obtain prev where sp: "chunks st (m_freed_chunks st ! 0) = Some prev"
      by (simp add: free_overlap_def split: option.splits)
    let ?st0 = "(set_marked (m_freed_chunks st ! 0) prev True st)
                 \<lparr>cout := cout st @ [OutPtr (m_start prev)]\<rparr>"
    from fo ne sp obtain filtered st1 where
      loop: "free_overlap_loop 1 [m_freed_chunks st ! 0] ?st0 = Inr (filtered, st1)"
      and del: "free_overlap_delete (m_freed_chunks st1) (st1\<lparr>m_freed_chunks := filtered\<rparr>) = Inr st'"
      by (simp add: free_overlap_def split: sum.splits prod.splits)
    from free_overlap_loop_frame [OF loop] free_overlap_delete_frame [OF del]
    show ?thesis
      by simp
  qed
qed

lemma sweep_loop_fuel: "sweep_loop iter st \<noteq> Inl OutOfFuel"
proof (induction iter st rule: sweep_loop.induct)
  case (1 iter st)
  show ?case
    using "1.IH" by (subst sweep_loop.simps) (simp split: option.splits)
qed

lemma free_drain_fuel: "free_drain st \<noteq> Inl OutOfFuel"
proof (induction st rule: free_drain.induct)
  case (1 st)
  show ?case
    using "1.IH" by (subst free_drain.simps) (simp split: option.splits)
qed

lemma free_overlap_loop_fuel: "free_overlap_loop i f st \<noteq> Inl OutOfFuel"
proof (induction i f st rule: free_overlap_loop.induct)
  case (1 i f st)
  show ?case
    using "1.IH" by (subst free_overlap_loop.simps) (simp split: option.splits)
qed

lemma free_overlap_delete_fuel: "free_overlap_delete ps st \<noteq> Inl OutOfFuel"
  by (induction ps arbitrary: st) (simp_all split: option.splits)

lemma free_fuel: "free FREE_THRESH st \<noteq> Inl OutOfFuel"
proof -
  have "free_overlap st \<noteq> Inl OutOfFuel"
    using free_overlap_loop_fuel free_overlap_delete_fuel
    by (auto simp: free_overlap_def split: option.splits sum.splits prod.splits)
  then show ?thesis
    using free_drain_fuel by (simp add: free_def)
qed

lemma collect_not_out_of_fuel: "collect FREE_THRESH stack_bottom st \<noteq> Inl OutOfFuel"
proof -
  let ?ws = "(vector_of (m_allocated_chunks st), record_event CollectStart st)"
  have "v_size (fst ?ws) \<le> length (m_allocated_chunks st)"
    by (simp add: vector_of_def)
  then have m: "mark (length (m_allocated_chunks st)) stack_bottom (m_stack_top st) ?ws
                  \<noteq> Inl OutOfFuel"
    using mark_fuel(1) by blast
  show ?thesis
    using m sweep_loop_fuel free_fuel
    by (auto simp: collect_def sweep_def split: sum.splits prod.splits)
qed

text \<open>\<open>mark\<close> returns on a well-formed work list.\<close>

lemma mark_okD1: "mark_ok ws \<Longrightarrow> v_size (fst ws) \<le> length (v_buf (fst ws))"
  by (simp add: mark_ok_def)

lemma mark_okD2:
  "mark_ok ws \<Longrightarrow> q \<in> set (v_buf (fst ws)) \<Longrightarrow> \<exists>c. chunks (snd ws) q = Some c \<and> scan_ok c"
  unfolding mark_ok_def by (elim conjE) (erule bspec)

lemma mark_okD3:
  assumes "mark_ok ws" and "q1 \<in> set (v_buf (fst ws))" and "q2 \<in> set (v_buf (fst ws))"
    and "q1 \<noteq> q2" and "chunks (snd ws) q1 = Some c1" and "chunks (snd ws) q2 = Some c2"
    and "points_into c1 w"
  shows "\<not> points_into c2 w"
proof -
  from assms(1) have all: "\<forall>q1\<in>set (v_buf (fst ws)). \<forall>q2\<in>set (v_buf (fst ws)). \<forall>c1 c2 w.
            q1 \<noteq> q2 \<and> chunks (snd ws) q1 = Some c1 \<and> chunks (snd ws) q2 = Some c2
            \<and> points_into c1 w \<longrightarrow> \<not> points_into c2 w"
    unfolding mark_ok_def by (elim conjE)
  from all assms(2) have "\<forall>q2\<in>set (v_buf (fst ws)). \<forall>c1 c2 w.
            q1 \<noteq> q2 \<and> chunks (snd ws) q1 = Some c1 \<and> chunks (snd ws) q2 = Some c2
            \<and> points_into c1 w \<longrightarrow> \<not> points_into c2 w"
    by (rule bspec)
  from this assms(3) have "\<forall>c1 c2 w.
            q1 \<noteq> q2 \<and> chunks (snd ws) q1 = Some c1 \<and> chunks (snd ws) q2 = Some c2
            \<and> points_into c1 w \<longrightarrow> \<not> points_into c2 w"
    by (rule bspec)
  then have "\<forall>c2 w.
            q1 \<noteq> q2 \<and> chunks (snd ws) q1 = Some c1 \<and> chunks (snd ws) q2 = Some c2
            \<and> points_into c1 w \<longrightarrow> \<not> points_into c2 w"
    by (rule spec)
  then have "\<forall>w.
            q1 \<noteq> q2 \<and> chunks (snd ws) q1 = Some c1 \<and> chunks (snd ws) q2 = Some c2
            \<and> points_into c1 w \<longrightarrow> \<not> points_into c2 w"
    by (rule spec)
  then have "q1 \<noteq> q2 \<and> chunks (snd ws) q1 = Some c1 \<and> chunks (snd ws) q2 = Some c2
            \<and> points_into c1 w \<longrightarrow> \<not> points_into c2 w"
    by (rule spec)
  moreover have "q1 \<noteq> q2 \<and> chunks (snd ws) q1 = Some c1 \<and> chunks (snd ws) q2 = Some c2
            \<and> points_into c1 w"
    by (intro conjI assms(4-7))
  ultimately show ?thesis
    by (rule mp)
qed

lemma chunk_kept_Some:
  "chunk_kept st st' q \<Longrightarrow> chunks st q = Some c \<Longrightarrow>
     \<exists>c'. chunks st' q = Some c' \<and> m_start c' = m_start c \<and> m_size c' = m_size c
          \<and> (m_marked c \<longrightarrow> m_marked c')"
  by (auto simp: chunk_kept_def split: option.splits)

lemma chunk_kept_Some_rev:
  "chunk_kept st st' q \<Longrightarrow> chunks st' q = Some c' \<Longrightarrow>
     \<exists>c. chunks st q = Some c \<and> m_start c' = m_start c \<and> m_size c' = m_size c"
  by (auto simp: chunk_kept_def split: option.splits)

lemma points_into_geometry:
  "m_start c' = m_start c \<Longrightarrow> m_size c' = m_size c \<Longrightarrow> points_into c' w = points_into c w"
  by (simp add: points_into_def)

lemma mark_ok_ext:
  assumes "mark_ok ws" and "mark_ext ws ws'"
  shows "mark_ok ws'"
proof -
  have wf: "v_size (fst ws) \<le> length (v_buf (fst ws))"
    using assms(1) by (rule mark_okD1)
  have kept: "\<And>q. chunk_kept (snd ws) (snd ws') q"
    and sub: "set (v_buf (fst ws')) \<subseteq> set (v_buf (fst ws))"
    and sz: "v_size (fst ws') \<le> v_size (fst ws)"
    using assms(2) by (simp_all add: mark_ext_def)
  have len: "length (v_buf (fst ws')) = length (v_buf (fst ws))"
    using assms(2) wf by (simp add: mark_ext_def)
  have a: "v_size (fst ws') \<le> length (v_buf (fst ws'))"
    using wf sz len by simp
  have b: "\<forall>q\<in>set (v_buf (fst ws')). \<exists>c. chunks (snd ws') q = Some c \<and> scan_ok c"
  proof
    fix q assume "q \<in> set (v_buf (fst ws'))"
    then have "q \<in> set (v_buf (fst ws))"
      using sub by auto
    from mark_okD2 [OF assms(1) this] obtain c where c: "chunks (snd ws) q = Some c" "scan_ok c"
      by blast
    from chunk_kept_Some [OF kept [of q] c(1)] obtain c' where
      "chunks (snd ws') q = Some c'" "m_start c' = m_start c" "m_size c' = m_size c"
      by blast
    then show "\<exists>c. chunks (snd ws') q = Some c \<and> scan_ok c"
      using c(2) by (simp add: scan_ok_def)
  qed
  have c: "\<forall>q1\<in>set (v_buf (fst ws')). \<forall>q2\<in>set (v_buf (fst ws')). \<forall>c1 c2 w.
            q1 \<noteq> q2 \<and> chunks (snd ws') q1 = Some c1 \<and> chunks (snd ws') q2 = Some c2
            \<and> points_into c1 w \<longrightarrow> \<not> points_into c2 w"
  proof (intro ballI allI impI)
    fix q1 q2 c1 c2 w
    assume q: "q1 \<in> set (v_buf (fst ws'))" "q2 \<in> set (v_buf (fst ws'))"
      and h: "q1 \<noteq> q2 \<and> chunks (snd ws') q1 = Some c1 \<and> chunks (snd ws') q2 = Some c2
            \<and> points_into c1 w"
    then have h1: "chunks (snd ws') q1 = Some c1" and h2: "chunks (snd ws') q2 = Some c2"
      and hne: "q1 \<noteq> q2" and hp: "points_into c1 w"
      by simp_all
    from chunk_kept_Some_rev [OF kept [of q1] h1] obtain d1 where
      d1: "chunks (snd ws) q1 = Some d1" "m_start c1 = m_start d1" "m_size c1 = m_size d1"
      by blast
    from chunk_kept_Some_rev [OF kept [of q2] h2] obtain d2 where
      d2: "chunks (snd ws) q2 = Some d2" "m_start c2 = m_start d2" "m_size c2 = m_size d2"
      by blast
    have p1: "points_into d1 w"
      using hp d1 by (simp add: points_into_def)
    have i1: "q1 \<in> set (v_buf (fst ws))" and i2: "q2 \<in> set (v_buf (fst ws))"
      using q sub by auto
    have "\<not> points_into d2 w"
      using assms(1) i1 i2 hne d1(1) d2(1) p1 by (rule mark_okD3)
    then show "\<not> points_into c2 w"
      using d2 by (simp add: points_into_def)
  qed
  show ?thesis
    unfolding mark_ok_def by (intro conjI a b c)
qed

lemma mark_ok_record: "mark_ok (wl, record_event ev st) = mark_ok (wl, st)"
  by (simp add: mark_ok_def)

lemma mark_returns:
  "mark_ok ws1 \<and> v_size (fst ws1) \<le> d1 \<and> e1 \<le> e1 + 8
     \<longrightarrow> (\<exists>r. mark d1 s1 e1 ws1 = Inr r)"
  "mark_ok ws2 \<and> v_size (fst ws2) \<le> d2 \<and> e2 \<le> e2 + 8
     \<longrightarrow> (\<exists>r. mark_for d2 s2 e2 ws2 = Inr r)"
  "mark_ok ws3 \<and> v_size (fst ws3) \<le> d3 \<and> it3 \<le> stop3 \<and> stop3 \<le> length (v_buf (fst ws3))
     \<and> (v_size (fst ws3) = stop3
         \<or> (\<forall>q\<in>set (v_buf (fst ws3)). \<forall>c.
               chunks (snd ws3) q = Some c \<and> points_into c (mem (snd ws3) s3) \<longrightarrow> m_marked c))
     \<longrightarrow> (\<exists>r. mark_while d3 s3 it3 stop3 ws3 = Inr r)"
proof (induction d1 s1 e1 ws1 and d2 s2 e2 ws2 and d3 s3 it3 stop3 ws3
        rule: mark_mark_for_mark_while.induct)
  case (1 d start end' worklist st)
  show ?case
  proof
    assume a: "mark_ok (worklist, st) \<and> v_size (fst (worklist, st)) \<le> d \<and> end' \<le> end' + 8"
    then have "mark_ok (worklist, record_event MarkStart st)
        \<and> v_size (fst (worklist, record_event MarkStart st)) \<le> d \<and> end' \<le> end' + 8"
      by (simp add: mark_ok_record)
    with 1 obtain r where "mark_for d start end' (worklist, record_event MarkStart st) = Inr r"
      by blast
    then show "\<exists>r. mark d start end' (worklist, st) = Inr r"
      by (simp add: mark.simps)
  qed
next
  case (2 d start end' worklist st)
  show ?case
  proof
    assume a: "mark_ok (worklist, st) \<and> v_size (fst (worklist, st)) \<le> d \<and> end' \<le> end' + 8"
    then have ok: "mark_ok (worklist, st)" and fuel: "v_size worklist \<le> d"
      and e: "end' \<le> end' + 8"
      by simp_all
    show "\<exists>r. mark_for d start end' (worklist, st) = Inr r"
    proof (cases "start \<le> end'")
      case False
      then show ?thesis
        by (subst mark_for.simps) simp
    next
      case True
      have "v_size worklist \<le> length (v_buf worklist)"
        using mark_okD1 [OF ok] by simp
      then have "mark_ok (worklist, st) \<and> v_size (fst (worklist, st)) \<le> d \<and> 0 \<le> v_size worklist
          \<and> v_size worklist \<le> length (v_buf (fst (worklist, st)))
          \<and> (v_size (fst (worklist, st)) = v_size worklist
             \<or> (\<forall>q\<in>set (v_buf (fst (worklist, st))). \<forall>c.
                   chunks (snd (worklist, st)) q = Some c
                   \<and> points_into c (mem (snd (worklist, st)) start) \<longrightarrow> m_marked c))"
        using ok fuel by simp
      with "2.IH"(1) [OF True]
      obtain b where w: "mark_while d start 0 (v_size worklist) (worklist, st) = Inr b"
        by blast
      then have ext: "mark_ext (worklist, st) b"
        using mark_ext_all(3) by blast
      then have okb: "mark_ok b"
        using ok by (rule mark_ok_ext [rotated])
      have fb: "v_size (fst b) \<le> d"
        using ext fuel by (simp add: mark_ext_def)
      have "unat end' + 8 < 2 ^ 64"
        using e by (simp add: no_olen_add_nat)
      moreover have "unat start \<le> unat end'"
        using True by (simp add: word_le_nat_alt)
      ultimately have ov: "start \<le> start + 8"
        by (simp add: no_olen_add_nat)
      have "mark_ok b \<and> v_size (fst b) \<le> d \<and> end' \<le> end' + 8"
        using okb fb e by simp
      with "2.IH"(2) [OF True w ov]
      obtain r where "mark_for d (start + 8) end' b = Inr r"
        by blast
      then show ?thesis
        using True w ov by (subst mark_for.simps) simp
    qed
  qed
next
  case (3 d start it stop worklist st)
  show ?case
  proof
    assume a: "mark_ok (worklist, st) \<and> v_size (fst (worklist, st)) \<le> d \<and> it \<le> stop
      \<and> stop \<le> length (v_buf (fst (worklist, st)))
      \<and> (v_size (fst (worklist, st)) = stop
         \<or> (\<forall>q\<in>set (v_buf (fst (worklist, st))). \<forall>c.
               chunks (snd (worklist, st)) q = Some c
               \<and> points_into c (mem (snd (worklist, st)) start) \<longrightarrow> m_marked c))"
    then have ok: "mark_ok (worklist, st)" and fuel: "v_size worklist \<le> d"
      and le: "it \<le> stop" and sl: "stop \<le> length (v_buf worklist)"
      and dis: "v_size worklist = stop
         \<or> (\<forall>q\<in>set (v_buf worklist). \<forall>c.
               chunks st q = Some c \<and> points_into c (mem st start) \<longrightarrow> m_marked c)"
      by simp_all
    show "\<exists>r. mark_while d start it stop (worklist, st) = Inr r"
    proof (cases "it = stop")
      case True
      then show ?thesis
        by (subst mark_while.simps) simp
    next
      case ne: False
      then have inb: "it < length (v_buf worklist)"
        using le sl by simp
      then have qin: "v_buf worklist ! it \<in> set (v_buf worklist)"
        by simp
      with mark_okD2 [OF ok, of "v_buf worklist ! it"]
      obtain chunk where some: "chunks st (v_buf worklist ! it) = Some chunk"
        and sc: "scan_ok chunk"
        by auto
      let ?hit = "m_start chunk \<le> mem st start \<and> mem st start < m_start chunk + m_size chunk"
      show ?thesis
      proof (cases "?hit \<and> \<not> m_marked chunk")
        case False
        have le': "it + 1 \<le> stop"
          using le ne by simp
        have pre: "mark_ok (worklist, st) \<and> v_size (fst (worklist, st)) \<le> d \<and> it + 1 \<le> stop
          \<and> stop \<le> length (v_buf (fst (worklist, st)))
          \<and> (v_size (fst (worklist, st)) = stop
             \<or> (\<forall>q\<in>set (v_buf (fst (worklist, st))). \<forall>c.
                   chunks (snd (worklist, st)) q = Some c
                   \<and> points_into c (mem (snd (worklist, st)) start) \<longrightarrow> m_marked c))"
          using a le' by simp
        from False have "(?hit \<and> \<not> \<not> m_marked chunk) \<or> \<not> ?hit"
          by blast
        then obtain r where "mark_while d start (it + 1) stop (worklist, st) = Inr r"
          using "3.IH"(3) [OF ne inb some] "3.IH"(4) [OF ne inb some] pre by blast
        then show ?thesis
          using ne inb some False by (subst mark_while.simps) auto
      next
        case True
        then have hit: ?hit and unmarked: "\<not> m_marked chunk"
          by simp_all
        have pin: "points_into chunk (mem st start)"
          using hit by (simp add: points_into_def)
        have "\<not> (\<forall>q\<in>set (v_buf worklist). \<forall>c.
               chunks st q = Some c \<and> points_into c (mem st start) \<longrightarrow> m_marked c)"
          using qin some pin unmarked by blast
        with dis have "v_size worklist = stop"
          by blast
        then have ins: "it < v_size worklist"
          using le ne by simp
        then obtain d' where d: "d = Suc d'"
          using fuel by (cases d) auto
        let ?q = "v_buf worklist ! it"
        let ?st1 = "set_marked ?q chunk True (record_event (ChunkMarked chunk) st)"
        let ?ws1 = "(v_erase it worklist, ?st1)"
        have ext1: "mark_ext (worklist, st) ?ws1"
          using ins inb some by (rule mark_ext_erase)
        then have ok1: "mark_ok ?ws1"
          using ok by (rule mark_ok_ext [rotated])
        have f1: "v_size (fst ?ws1) \<le> d'"
          using fuel d by (simp add: v_erase_def)
        have e1: "m_start chunk + m_size chunk \<le> m_start chunk + m_size chunk + 8"
          using sc by (simp add: scan_ok_def)
        have "mark_ok ?ws1 \<and> v_size (fst ?ws1) \<le> d'
                \<and> m_start chunk + m_size chunk \<le> m_start chunk + m_size chunk + 8"
          using ok1 f1 e1 by (intro conjI)
        with "3.IH"(1) [OF ne inb some hit unmarked ins d]
        obtain b where m: "mark d' (m_start chunk) (m_start chunk + m_size chunk) ?ws1 = Inr b"
          by blast
        then have ext2: "mark_ext ?ws1 b"
          using mark_ext_all(1) by blast
        then have okb: "mark_ok b"
          using ok1 by (rule mark_ok_ext [rotated])
        have extb: "mark_ext (worklist, st) b"
          using ext1 ext2 by (rule mark_ext_trans)
        have fb: "v_size (fst b) \<le> d'"
          using ext2 f1 by (simp add: mark_ext_def)
        have lb: "length (v_buf (fst b)) = length (v_buf worklist)"
          using extb mark_okD1 [OF ok] by (simp add: mark_ext_def)
        have memb: "mem (snd b) = mem st"
          using extb by (simp add: mark_ext_def)
        have subb: "set (v_buf (fst b)) \<subseteq> set (v_buf worklist)"
          using extb by (simp add: mark_ext_def)
        have keptb: "\<And>q. chunk_kept st (snd b) q" and kept1: "\<And>q. chunk_kept ?st1 (snd b) q"
          using extb ext2 by (simp_all add: mark_ext_def)
        have allm: "\<forall>q\<in>set (v_buf (fst b)). \<forall>c.
               chunks (snd b) q = Some c \<and> points_into c (mem (snd b) start) \<longrightarrow> m_marked c"
        proof (intro ballI allI impI)
          fix q c assume q: "q \<in> set (v_buf (fst b))"
            and h: "chunks (snd b) q = Some c \<and> points_into c (mem (snd b) start)"
          from h chunk_kept_Some_rev [OF keptb [of q]] obtain c0 where
            c0: "chunks st q = Some c0" "m_start c = m_start c0" "m_size c = m_size c0"
            by blast
          have p0: "points_into c0 (mem st start)"
            using h c0 memb by (simp add: points_into_def)
          have "q = ?q"
          proof (rule ccontr)
            assume "q \<noteq> ?q"
            moreover have "q \<in> set (v_buf (fst (worklist, st)))"
              "?q \<in> set (v_buf (fst (worklist, st)))"
              using q subb qin by auto
            moreover have "chunks (snd (worklist, st)) q = Some c0"
              "chunks (snd (worklist, st)) ?q = Some chunk"
              using c0(1) some by simp_all
            ultimately have "\<not> points_into chunk (mem st start)"
              using p0 by (intro mark_okD3 [OF ok, of q ?q c0 chunk "mem st start"])
            with pin show False by simp
          qed
          moreover have "is_marked ?st1 ?q"
            by (simp add: is_marked_def)
          then have "is_marked (snd b) ?q"
            using kept1 [of ?q] by (rule chunk_kept_marked [rotated])
          ultimately show "m_marked c"
            using h by (simp add: is_marked_def)
        qed
        have sl': "stop \<le> length (v_buf (fst b))"
          using sl lb by simp
        have pre: "mark_ok b \<and> v_size (fst b) \<le> d' \<and> it \<le> stop
          \<and> stop \<le> length (v_buf (fst b))
          \<and> (v_size (fst b) = stop
             \<or> (\<forall>q\<in>set (v_buf (fst b)). \<forall>c.
                   chunks (snd b) q = Some c \<and> points_into c (mem (snd b) start)
                   \<longrightarrow> m_marked c))"
          using okb fb le sl' allm by (intro conjI disjI2)
        from "3.IH"(2) [OF ne inb some hit unmarked ins d m] pre
        obtain r where "mark_while d' start it stop b = Inr r"
          by blast
        then show ?thesis
          using ne inb some True ins d m by (subst mark_while.simps) simp
      qed
    qed
  qed
qed

lemma heap_ok_pinned: "heap_ok heap_pinned"
  by (auto simp: heap_ok_def mark_ok_def scan_ok_def points_into_def vector_of_def nullptr_def
        heap_pinned_def empty_heap_def new_Chunk_def)



subsection \<open>collect\<close>

text \<open>\<open>collect\<close> returns on a well-formed heap.\<close>

lemma collect_returns:
  assumes "heap_ok st"
  shows "\<exists>st'. collect FREE_THRESH stack_bottom st = Inr st'"
proof -
  let ?st0 = "record_event CollectStart st"
  let ?ws = "(vector_of (m_allocated_chunks st), ?st0)"
  from assms have top: "m_stack_top st \<noteq> nullptr" and e: "m_stack_top st \<le> m_stack_top st + 8"
    and d: "distinct (m_allocated_chunks st @ m_freed_chunks st)"
    and vf: "\<forall>p\<in>set (m_freed_chunks st). chunks st p \<noteq> None"
    and ok: "mark_ok (vector_of (m_allocated_chunks st), st)"
    by (simp_all add: heap_ok_def)
  have ok0: "mark_ok ?ws"
    using ok by (simp add: mark_ok_record)
  have "mark_ok ?ws \<and> v_size (fst ?ws) \<le> length (m_allocated_chunks st)
          \<and> m_stack_top st \<le> m_stack_top st + 8"
    using ok0 e by (simp add: vector_of_def)
  with mark_returns(1) obtain r where
    m: "mark (length (m_allocated_chunks st)) stack_bottom (m_stack_top st) ?ws = Inr r"
    by blast
  obtain wl1 st1 where r: "r = (wl1, st1)"
    by (cases r)
  have ext: "mark_ext ?ws (wl1, st1)"
    using m r mark_ext_all(1) by blast
  then have a1: "m_allocated_chunks st1 = m_allocated_chunks st"
    and f1: "m_freed_chunks st1 = m_freed_chunks st"
    and kept: "\<And>q. chunk_kept ?st0 st1 q"
    by (simp_all add: mark_ext_def)
  have va: "\<forall>p\<in>set (m_allocated_chunks st). chunks st p \<noteq> None"
  proof
    fix p assume "p \<in> set (m_allocated_chunks st)"
    then have "p \<in> set (v_buf (fst (vector_of (m_allocated_chunks st), st)))"
      by (simp add: vector_of_def)
    from mark_okD2 [OF ok this] show "chunks st p \<noteq> None"
      by auto
  qed
  have v1: "\<And>p. chunks st p \<noteq> None \<Longrightarrow> chunks st1 p \<noteq> None"
  proof -
    fix p assume "chunks st p \<noteq> None"
    then obtain c where "chunks ?st0 p = Some c"
      by auto
    from chunk_kept_Some [OF kept [of p] this] show "chunks st1 p \<noteq> None"
      by auto
  qed
  have da: "distinct (m_allocated_chunks st1)"
    using d a1 by simp
  have va1: "\<forall>p\<in>set (drop 0 (m_allocated_chunks st1)). chunks st1 p \<noteq> None"
    using va v1 a1 by simp
  from sweep_loop_spec [OF da va1] obtain st2 where
    s: "sweep_loop 0 st1 = Inr st2"
    and f2: "m_freed_chunks st2 =
               m_freed_chunks st1 @ filter (\<lambda>p. \<not> is_marked st1 p) (m_allocated_chunks st1)"
    and c2: "\<forall>p. chunks st2 p =
               (if p \<in> set (m_allocated_chunks st1) \<and> is_marked st1 p
                then map_option (\<lambda>c. c\<lparr>m_marked := False\<rparr>) (chunks st1 p)
                else chunks st1 p)"
    by auto
  have v2: "\<And>p. chunks st1 p \<noteq> None \<Longrightarrow> chunks st2 p \<noteq> None"
    using c2 by auto
  have df: "distinct (m_freed_chunks st2)"
    using d unfolding f2 f1 a1 by auto
  have vf2: "\<forall>p\<in>set (m_freed_chunks st2). chunks st2 p \<noteq> None"
  proof
    fix p assume "p \<in> set (m_freed_chunks st2)"
    then have "p \<in> set (m_freed_chunks st) \<or> p \<in> set (m_allocated_chunks st)"
      unfolding f2 f1 a1 by auto
    then have "chunks st p \<noteq> None"
      using va vf by auto
    then show "chunks st2 p \<noteq> None"
      by (intro v2 v1)
  qed
  from free_heap_m_size [OF df vf2, of FREE_THRESH] obtain st' where
    f: "free FREE_THRESH st2 = Inr st'"
    by blast
  show ?thesis
    using top m r s f by (simp add: collect_def sweep_def)
qed


text \<open>
  Allocated chunks that do not overlap. A chunk \<open>c\<close> of \<open>allocated\<close> lies within the
  address space, and the word at \<open>stack_bottom + 8 * k\<close> of the scanned stack range
  \<open>[stack_bottom, stack_top]\<close> holds an address of \<open>c\<close> that belongs to no other allocated
  chunk. Then \<open>collect\<close> does not stop for lack of recursion bound, it returns when the
  heap is well-formed, and whenever it returns (no assertion fails, no behaviour is
  undefined) \<open>c\<close> is still in \<open>allocated\<close>.
\<close>

theorem collect_keeps_reachable:
  assumes "p \<in> set (m_allocated_chunks st)"
    and "chunks st p = Some c"
    and "m_start c \<le> m_start c + m_size c"
    and "unat stack_bottom + 8 * k \<le> unat (m_stack_top st)"
    and "mem st (stack_bottom + 8 * of_nat k) \<in> chunk_range c"
    and "\<forall>q\<in>set (m_allocated_chunks st). q \<noteq> p \<longrightarrow>
           (\<forall>cq. chunks st q = Some cq \<longrightarrow> mem st (stack_bottom + 8 * of_nat k) \<notin> chunk_range cq)"
  shows "collect FREE_THRESH stack_bottom st \<noteq> Inl OutOfFuel
         \<and> (heap_ok st \<longrightarrow> (\<exists>st'. collect FREE_THRESH stack_bottom st = Inr st'))
         \<and> (\<forall>st'. collect FREE_THRESH stack_bottom st = Inr st'
                \<longrightarrow> p \<in> set (m_allocated_chunks st'))"
proof (intro conjI allI impI)
  show "collect FREE_THRESH stack_bottom st \<noteq> Inl OutOfFuel"
    by (rule collect_not_out_of_fuel)
next
  assume "heap_ok st"
  then show "\<exists>st'. collect FREE_THRESH stack_bottom st = Inr st'"
    by (rule collect_returns)
next
  fix st' assume run: "collect FREE_THRESH stack_bottom st = Inr st'"
  let ?st0 = "record_event CollectStart st"
  let ?wl = "vector_of (m_allocated_chunks st)"
  from run obtain wl1 st1 where
    m: "mark (length (m_allocated_chunks st)) stack_bottom (m_stack_top st) (?wl, ?st0)
          = Inr (wl1, st1)"
    by (simp add: collect_def split: if_splits sum.splits prod.splits)
  from run m obtain st2 where s: "sweep st1 = Inr st2"
    by (simp add: collect_def split: if_splits sum.splits)
  from run m s have f: "free FREE_THRESH st2 = Inr st'"
    by (simp add: collect_def split: if_splits)
  have hit: "points_into c (mem ?st0 (stack_bottom + 8 * of_nat k))"
    using assms(5,3) by (simp add: range_points_into)
  have others: "\<forall>q\<in>set (v_buf ?wl). q \<noteq> p \<longrightarrow>
           (\<forall>cq. chunks ?st0 q = Some cq \<longrightarrow>
              \<not> points_into cq (mem ?st0 (stack_bottom + 8 * of_nat k)))"
    using assms(6) by (auto simp: vector_of_def dest: points_into_range)
  have pos: "m_marked c \<or> p \<in> v_elems ?wl"
    using assms(1) by (simp add: v_elems_def vector_of_def)
  have c0: "chunks ?st0 p = Some c"
    using assms(2) by simp
  have k0: "unat stack_bottom + 8 * k \<le> unat (m_stack_top st)"
    by fact
  have "is_marked (snd (wl1, st1)) p"
    using m k0 c0 hit others pos by (rule mark_hits)
  then have marked: "is_marked st1 p"
    by simp
  have "mark_ext (?wl, ?st0) (wl1, st1)"
    using m mark_ext_all(1) by blast
  then have "m_allocated_chunks st1 = m_allocated_chunks st"
    by (simp add: mark_ext_def)
  then have "p \<in> set (m_allocated_chunks st1)"
    using assms(1) by simp
  with s have "p \<in> set (m_allocated_chunks st2)"
    using marked by (rule sweep_keeps_marked)
  then show "p \<in> set (m_allocated_chunks st')"
    using free_frame [OF f] by simp
qed

theorem collect_keeps_reachable_witness:
  "\<exists>st'. collect 4 0x8000 heap_pinned = Inr st' \<and> 0 \<in> set (m_allocated_chunks st')"
proof -
  have ok: "heap_ok heap_pinned"
    by (rule heap_ok_pinned)
  have 1: "0 \<in> set (m_allocated_chunks heap_pinned)"
    and 2: "chunks heap_pinned 0 = Some (new_Chunk 64 0x1000)"
    and 3: "m_start (new_Chunk 64 0x1000) \<le> m_start (new_Chunk 64 0x1000) + m_size (new_Chunk 64 0x1000)"
    and 4: "unat (0x8000 :: addr) + 8 * 2 \<le> unat (m_stack_top heap_pinned)"
    and 5: "mem heap_pinned (0x8000 + 8 * of_nat 2) \<in> chunk_range (new_Chunk 64 0x1000)"
    and 6: "\<forall>q\<in>set (m_allocated_chunks heap_pinned). q \<noteq> 0 \<longrightarrow>
           (\<forall>cq. chunks heap_pinned q = Some cq \<longrightarrow>
              mem heap_pinned (0x8000 + 8 * of_nat 2) \<notin> chunk_range cq)"
    by (simp_all add: heap_pinned_def empty_heap_def new_Chunk_def chunk_range_def)
  from collect_keeps_reachable [OF 1 2 3 4 5 6, of 4] ok show ?thesis
    by blast
qed

subsection \<open>What recycling and allocation do to the heap\<close>

text \<open>
  The first freed chunk that is not smaller than the request is taken. On an exact fit it
  moves to \<open>allocated\<close>. Otherwise the same chunk moves to \<open>allocated\<close>, with its size
  unchanged, and a new chunk of the remaining size, placed at \<open>m_start + m_size\<close> in units of
  \<open>uintptr_t\<close>, is appended to \<open>freed\<close>.
\<close>

lemma try_recycle_loop_fit:
  assumes "i \<le> j" and "j < length (m_freed_chunks st)"
    and "\<forall>k. i \<le> k \<and> k < j \<longrightarrow>
           (\<exists>c. chunks st (m_freed_chunks st ! k) = Some c \<and> m_size c < sz)"
    and "chunks st (m_freed_chunks st ! j) = Some cj"
    and "sz \<le> m_size cj"
  shows "try_recycle_loop sz i st =
           (if m_size cj = sz then
              Inr (Some (m_freed_chunks st ! j),
                   st\<lparr>m_freed_chunks := erase j (m_freed_chunks st),
                      m_allocated_chunks := m_allocated_chunks st @ [m_freed_chunks st ! j]\<rparr>)
            else
              Inr (Some (m_freed_chunks st ! j),
                   st\<lparr>chunks := (chunks st)
                          (next_chunk st \<mapsto>
                             new_Chunk (m_size cj - sz) (ptr_add (m_start cj) (m_size cj))),
                      next_chunk := Suc (next_chunk st),
                      m_freed_chunks := erase j (m_freed_chunks st) @ [next_chunk st],
                      m_allocated_chunks := m_allocated_chunks st @ [m_freed_chunks st ! j]\<rparr>))"
  using assms(1,3)
proof (induction "j - i" arbitrary: i)
  case 0
  then have "i = j"
    by simp
  then show ?case
    using assms(2,4,5)
    by (subst try_recycle_loop.simps) (auto simp: new_chunk_def)
next
  case (Suc n)
  then have lt: "i < j"
    by simp
  then obtain c where c: "chunks st (m_freed_chunks st ! i) = Some c" "m_size c < sz"
    using Suc.prems(2) by auto
  then have no: "\<not> sz < m_size c" "m_size c \<noteq> sz"
    by auto
  have step: "try_recycle_loop sz i st = try_recycle_loop sz (i + 1) st"
    using lt assms(2) c(1) no by (subst try_recycle_loop.simps) simp
  have "n = j - (i + 1)" "i + 1 \<le> j"
    using Suc.hyps(2) lt by simp_all
  moreover have "\<forall>k. i + 1 \<le> k \<and> k < j \<longrightarrow>
           (\<exists>c. chunks st (m_freed_chunks st ! k) = Some c \<and> m_size c < sz)"
    using Suc.prems(2) by auto
  ultimately show ?case
    unfolding step by (rule Suc.hyps(1))
qed

lemma try_recycle_loop_heap_m_size:
  "try_recycle_loop sz i st = Inr (r, st') \<Longrightarrow> heap_m_size st' = heap_m_size st"
proof (induction sz i st rule: try_recycle_loop.induct)
  case (1 sz i st)
  show ?case
  proof (cases "i < length (m_freed_chunks st)")
    case False
    with "1.prems" show ?thesis
      by (subst (asm) try_recycle_loop.simps) simp
  next
    case True
    with "1.prems" obtain chunk where some: "chunks st (m_freed_chunks st ! i) = Some chunk"
      by (subst (asm) try_recycle_loop.simps) (simp split: option.splits)
    show ?thesis
    proof (cases "sz < m_size chunk \<or> m_size chunk = sz")
      case fit: True
      with "1.prems" True some show ?thesis
        by (subst (asm) try_recycle_loop.simps) (auto simp: new_chunk_def split: if_splits)
    next
      case False
      then have no: "\<not> sz < m_size chunk" "m_size chunk \<noteq> sz"
        by simp_all
      then have "try_recycle_loop sz (i + 1) st = Inr (r, st')"
        using "1.prems" True some by (subst (asm) try_recycle_loop.simps) simp
      from "1.IH" [OF True some no this] show ?thesis .
    qed
  qed
qed

lemma collect_heap_m_size:
  assumes "collect FREE_THRESH stack_bottom st = Inr st'"
  shows "heap_m_size st' = heap_m_size st"
proof -
  let ?ws = "(vector_of (m_allocated_chunks st), record_event CollectStart st)"
  from assms obtain wl1 st1 where
    m: "mark (length (m_allocated_chunks st)) stack_bottom (m_stack_top st) ?ws = Inr (wl1, st1)"
    by (simp add: collect_def split: if_splits sum.splits prod.splits)
  from assms m obtain st2 where s: "sweep st1 = Inr st2"
    by (simp add: collect_def split: if_splits sum.splits)
  from assms m s have f: "free FREE_THRESH st2 = Inr st'"
    by (simp add: collect_def split: if_splits)
  have "mark_ext ?ws (wl1, st1)"
    using m mark_ext_all(1) by blast
  then have "heap_m_size st1 = heap_m_size st"
    by (simp add: mark_ext_def)
  moreover have "heap_m_size st2 = heap_m_size st1"
    using s by (simp add: sweep_def sweep_loop_heap_m_size)
  ultimately show ?thesis
    using free_frame [OF f] by simp
qed

text \<open>
  A collection does not change \<open>used\<close>, so the assertion after it fails whenever the
  capacity check has started it: \<open>alloc\<close> never returns from that branch.
\<close>

lemma alloc_capacity_exceeded:
  assumes "HEAP_SIZE < heap_m_size st + sz"
  shows "alloc_capacity FREE_THRESH stack_bottom sz st \<noteq> Inr st'"
proof (cases "collect FREE_THRESH stack_bottom st")
  case (Inl e)
  with assms show ?thesis
    by (simp add: alloc_capacity_def)
next
  case (Inr st1)
  then have "heap_m_size st1 = heap_m_size st"
    by (rule collect_heap_m_size)
  with assms Inr show ?thesis
    by (simp add: alloc_capacity_def linorder_not_le)
qed

lemma alloc_used:
  assumes "alloc FREE_THRESH stack_bottom sz st = Inr (a, st')"
  shows "heap_m_size st' = heap_m_size st
         \<or> (heap_m_size st' = heap_m_size st + sz \<and> heap_m_size st + sz \<le> HEAP_SIZE)"
proof (cases "sz = 0")
  case True
  with assms show ?thesis
    by (auto simp: alloc_def)
next
  case False
  let ?st0 = "record_event (AllocStart sz) st"
  from assms False obtain st1 where
    cap: "alloc_capacity FREE_THRESH stack_bottom sz ?st0 = Inr st1"
    and ch: "alloc_chunk sz st1 = Inr (a, st')"
    by (simp add: alloc_def split: sum.splits)
  have le: "heap_m_size ?st0 + sz \<le> HEAP_SIZE"
    using cap alloc_capacity_exceeded [of ?st0 sz FREE_THRESH stack_bottom st1]
    by (auto simp: linorder_not_less [symmetric])
  then have st1: "st1 = ?st0"
    using cap by (simp add: alloc_capacity_def linorder_not_less [symmetric])
  from ch obtain r st2 where rec: "try_recycle_chunks sz st1 = Inr (r, st2)"
    by (auto simp: alloc_chunk_def split: sum.splits)
  then have h2: "heap_m_size st2 = heap_m_size st"
    using st1 by (simp add: try_recycle_chunks_def try_recycle_loop_heap_m_size)
  show ?thesis
  proof (cases r)
    case None
    with ch rec h2 le show ?thesis
      by (auto simp: alloc_chunk_def new_chunk_def)
  next
    case (Some q)
    with ch rec h2 show ?thesis
      by (auto simp: alloc_chunk_def split: option.splits)
  qed
qed

text \<open>
  The capacity invariant \<open>used \<le> HEAP_SIZE\<close> is kept by every \<open>alloc\<close> that returns, and
  \<open>used\<close> does not decrease when \<open>used + size\<close> does not wrap around.
\<close>

lemma alloc_capacity_invariant:
  assumes "alloc FREE_THRESH stack_bottom sz st = Inr (a, st')"
    and "heap_m_size st \<le> HEAP_SIZE"
  shows "heap_m_size st' \<le> HEAP_SIZE"
  using alloc_used [OF assms(1)] assms(2) by auto

lemma alloc_used_monotone:
  assumes "alloc FREE_THRESH stack_bottom sz st = Inr (a, st')"
    and "heap_m_size st \<le> heap_m_size st + sz"
  shows "heap_m_size st \<le> heap_m_size st'"
  using alloc_used [OF assms(1)] assms(2) by auto

subsection \<open>Collection after the capacity check has wrapped around\<close>

text \<open>
  Six calls of \<open>alloc\<close> on the empty heap, for 8, 8, 16, \<open>2^64 - 16\<close>, 16 and 8 bytes. In
  the fourth call the sum \<open>m_size + size\<close> wraps around, no collection runs, and the bump
  counter goes back from 32 to 16: the fifth call returns \<open>0x1010\<close>, as the third did, and
  the sixth \<open>0x1020\<close>, as the fourth did.
\<close>

lemma allocs_wrapped:
  "allocs FREE_THRESH stack_bottom [8, 8, 16, - 16, 16, 8] heap_wrap_start
     = Inr ([0x1000, 0x1008, 0x1010, 0x1020, 0x1010, 0x1020], heap_wrapped)"
  by (simp add: alloc_def alloc_capacity_def alloc_chunk_def try_recycle_chunks_def
        try_recycle_loop.simps heap_wrap_start_def heap_wrapped_def empty_heap_def
        new_chunk_def record_event_def HEAP_SIZE_def new_Chunk_def numeral_2_eq_2 [symmetric])

text \<open>
  C1. After these six calls chunk 4, the 16 bytes from \<open>0x1010\<close>, is in \<open>allocated\<close>, and
  the first word of the scanned stack range \<open>[0x8000, 0x8010]\<close> holds its address \<open>0x1010\<close>.
  The same address belongs to chunk 2, whose two words point to the chunks 0 and 1. \<open>mark\<close>
  finds chunk 2 first, erases it from the work list and, in the recursive calls for its
  interior, erases the chunks 0 and 1; back in the loop it goes on at the index it had
  reached, which by now is past chunk 4. Chunk 4 is never marked: \<open>collect\<close> returns with
  \<open>allocated\<close> holding the chunks 0, 1 and 2 only, and chunk 4 is in \<open>freed\<close>.
\<close>

theorem collect_frees_pointed_chunk:
  "allocs 3 0x8000 [8, 8, 16, - 16, 16, 8] heap_wrap_start
     = Inr ([0x1000, 0x1008, 0x1010, 0x1020, 0x1010, 0x1020], heap_wrapped)
   \<and> m_stack_top heap_wrapped = 0x8010
   \<and> 4 \<in> set (m_allocated_chunks heap_wrapped)
   \<and> chunks heap_wrapped 4 = Some (new_Chunk 16 0x1010)
   \<and> mem heap_wrapped 0x8000 \<in> chunk_range (new_Chunk 16 0x1010)
   \<and> (\<exists>st'. collect 3 0x8000 heap_wrapped = Inr st'
         \<and> m_allocated_chunks st' = [0, 1, 2]
         \<and> m_freed_chunks st' = [3, 4, 5])"
proof (intro conjI)
  show "allocs 3 0x8000 [8, 8, 16, - 16, 16, 8] heap_wrap_start
     = Inr ([0x1000, 0x1008, 0x1010, 0x1020, 0x1010, 0x1020], heap_wrapped)"
    by (rule allocs_wrapped)
next
  show "m_stack_top heap_wrapped = 0x8010"
    by (simp add: heap_wrapped_def heap_wrap_start_def empty_heap_def)
next
  show "4 \<in> set (m_allocated_chunks heap_wrapped)"
    by (simp add: heap_wrapped_def)
next
  show "chunks heap_wrapped 4 = Some (new_Chunk 16 0x1010)"
    by (simp add: heap_wrapped_def)
next
  show "mem heap_wrapped 0x8000 \<in> chunk_range (new_Chunk 16 0x1010)"
    by (simp add: heap_wrapped_def heap_wrap_start_def wrap_mem_def chunk_range_def
          new_Chunk_def)
next
  show "\<exists>st'. collect 3 0x8000 heap_wrapped = Inr st'
         \<and> m_allocated_chunks st' = [0, 1, 2]
         \<and> m_freed_chunks st' = [3, 4, 5]"
    by (simp add: collect_def free_def mark.simps mark_for.simps mark_while.simps
          vector_of_def v_erase_def set_marked_def record_event_def heap_wrapped_def
          heap_wrap_start_def empty_heap_def wrap_mem_def new_Chunk_def sweep_def
          sweep_loop.simps erase_def nullptr_def free_overlap_def free_overlap_loop.simps
          delete_chunk_def)
qed

text \<open>
  C3. In the same collection \<open>mark\<close> and \<open>sweep\<close> leave the freed list \<open>[3, 4, 5]\<close>, on
  which \<open>free\<close> runs \<open>free_overlap\<close>. Chunk 3 is the chunk of \<open>2^64 - 16\<close> bytes at
  \<open>0x1020\<close>: its end \<open>start + size\<close> wraps around to \<open>0x1010\<close>, so the test
  \<open>next.start \<ge> prev.start + prev.size\<close> keeps chunk 4 at \<open>0x1010\<close> and then chunk 5 at
  \<open>0x1020\<close>. \<open>free_overlap\<close> completes with all three chunks in \<open>freed\<close>, and the address
  \<open>0x1020\<close> belongs both to chunk 3 and to chunk 5.
\<close>

theorem free_overlap_keeps_overlap:
  "(\<exists>wl st1. mark 6 0x8000 0x8010 (vector_of [0, 1, 2, 3, 4, 5], heap_wrapped) = Inr (wl, st1)
       \<and> sweep st1 = Inr heap_wrapped_swept)
   \<and> (0x1020 :: addr) + (- 16) = 0x1010
   \<and> (\<exists>st'. free_overlap heap_wrapped_swept = Inr st'
         \<and> m_freed_chunks st' = [3, 4, 5]
         \<and> chunks st' 3 = Some (new_Chunk (- 16) 0x1020)
         \<and> chunks st' 5 = Some (new_Chunk 8 0x1020))
   \<and> 0x1020 \<in> chunk_range (new_Chunk (- 16) 0x1020) \<inter> chunk_range (new_Chunk 8 0x1020)"
proof (intro conjI)
  show "\<exists>wl st1. mark 6 0x8000 0x8010 (vector_of [0, 1, 2, 3, 4, 5], heap_wrapped) = Inr (wl, st1)
       \<and> sweep st1 = Inr heap_wrapped_swept"
    apply (simp add: mark.simps mark_for.simps mark_while.simps vector_of_def v_erase_def
        set_marked_def record_event_def heap_wrapped_def heap_wrap_start_def empty_heap_def
        wrap_mem_def new_Chunk_def sweep_def sweep_loop.simps erase_def heap_wrapped_swept_def)
    apply (rule ext)
    apply simp
    done
next
  show "(0x1020 :: addr) + (- 16) = 0x1010"
    by simp
next
  show "\<exists>st'. free_overlap heap_wrapped_swept = Inr st'
         \<and> m_freed_chunks st' = [3, 4, 5]
         \<and> chunks st' 3 = Some (new_Chunk (- 16) 0x1020)
         \<and> chunks st' 5 = Some (new_Chunk 8 0x1020)"
    by (simp add: free_overlap_def free_overlap_loop.simps set_marked_def record_event_def
          heap_wrapped_swept_def heap_wrapped_def heap_wrap_start_def empty_heap_def
          new_Chunk_def delete_chunk_def)
next
  show "0x1020 \<in> chunk_range (new_Chunk (- 16) 0x1020) \<inter> chunk_range (new_Chunk 8 0x1020)"
    by (simp add: chunk_range_def new_Chunk_def)
qed

end
